theory Spec2Isabelle
  imports Main "HOL-Library.Word"
begin

unbundle bit_operations_syntax

section \<open>Data model of eventdns.c\<close>

type_synonym u8 = "8 word"
type_synonym u16 = "16 word"
type_synonym u32 = "32 word"

text \<open>
  Everything that makes the C code stop abnormally is a value of this type:
  \<open>abort()\<close>, a failed \<open>assert\<close>, a dereference of a NULL or freed pointer, an
  out-of-range array index, the entropy source yielding no acceptable transaction id
  within the modelled sequence, and (in scenarios only) a parser that does not return.
\<close>

datatype error = Abort | AssertFail | NullDeref | BadPointer | OutOfBounds | EntropyExhausted
  | NoReturn

definition bnd :: "error + 'a \<Rightarrow> ('a \<Rightarrow> error + 'b) \<Rightarrow> error + 'b" where
  "bnd m f = (case m of Inl e \<Rightarrow> Inl e | Inr x \<Rightarrow> f x)"

text \<open>The result codes of eventdns.h handed to user callbacks.\<close>

datatype dns_err = DNS_ERR_NONE | DNS_ERR_FORMAT | DNS_ERR_SERVERFAILED | DNS_ERR_NOTEXIST
  | DNS_ERR_NOTIMPL | DNS_ERR_REFUSED | DNS_ERR_TRUNCATED | DNS_ERR_UNKNOWN
  | DNS_ERR_TIMEOUT | DNS_ERR_SHUTDOWN

text \<open>
  A callback is a function pointer: either a function of the user (named by a number)
  or the resolver's own \<open>nameserver_probe_callback\<close>.
\<close>

datatype evdns_callback_type = user_fn nat | nameserver_probe_callback_fn

text \<open>Modelled from the spec: the wire constants of eventdns.h (A = 1, PTR = 12, AAAA = 28, IN = 1).\<close>

definition TYPE_A :: nat where "TYPE_A = 1"
definition TYPE_PTR :: nat where "TYPE_PTR = 12"
definition TYPE_AAAA :: nat where "TYPE_AAAA = 28"
definition CLASS_INET :: nat where "CLASS_INET = 1"
definition MAX_ADDRS :: nat where "MAX_ADDRS = 4"
definition HOST_NAME_MAX :: nat where "HOST_NAME_MAX = 255"

text \<open>Modelled from the spec: the flag bits of eventdns.h.\<close>

definition DNS_QUERY_NO_SEARCH :: u32 where "DNS_QUERY_NO_SEARCH = 1"
definition DNS_OPTION_SEARCH :: u32 where "DNS_OPTION_SEARCH = 1"
definition DNS_OPTION_NAMESERVERS :: u32 where "DNS_OPTION_NAMESERVERS = 2"
definition DNS_OPTION_MISC :: u32 where "DNS_OPTION_MISC = 4"

text \<open>
  \<open>struct search_state\<close>: the list \<open>head\<close> holds the suffixes in the order of the
  \<open>next\<close> pointers. Objects of this type are shared between the global pointer and
  the requests of a search, so they live in a store and are named by a number.
\<close>

record search_state =
  refcount :: int
  ndots :: int
  num_domains :: int
  head :: "string list"

text \<open>
  \<open>struct request\<close>. The field \<open>rid\<close> stands for the address of the struct (a
  request pointer is this number); \<open>ns\<close> and \<open>search_state\<close> are pointers, \<open>None\<close>
  for NULL. \<open>timeout_event\<close> tells whether the request's timer is pending.
\<close>

record request =
  rid :: nat
  request :: "u8 list"
  reissue_count :: int
  tx_count :: int
  request_type :: nat
  user_pointer :: nat
  user_callback :: evdns_callback_type
  ns :: "nat option"
  search_index :: int
  search_state :: "nat option"
  search_origname :: "string option"
  search_flags :: u32
  timeout_event :: bool
  trans_id :: u16
  transmit_me :: bool

text \<open>
  \<open>struct nameserver\<close>. \<open>ns_ptr\<close> stands for the address of the struct;
  \<open>probe_timer\<close> is the pending probe timeout in seconds, if any.
\<close>

record nameserver =
  ns_ptr :: nat
  address :: u32
  failed_times :: int
  timedout :: int
  probe_timer :: "int option"
  state :: bool
  choaked :: bool
  write_waiting :: bool

datatype send_result = SendOk | SendAgain | SendShort | SendError

datatype sock_result = SockOk | SocketFails | ConnectFails | EventAddFails

text \<open>What a user callback was called with: function, result, type, count, ttl, data, argument.\<close>

datatype reply_data = NoData | Addresses "u32 list" | PtrName string

record callback_event =
  cb_fn :: nat
  cb_result :: dns_err
  cb_type :: nat
  cb_count :: nat
  cb_ttl :: u32
  cb_data :: reply_data
  cb_arg :: nat

text \<open>
  The module's global variables. The circular lists are kept as lists that start at the
  head pointer and follow the \<open>next\<close> pointers. The last fields are the environment:
  the values the id source will yield, the outcomes of the coming \<open>send\<close> calls and
  of the coming socket set-ups, the datagrams sent so far (request, nameserver), the
  user callbacks made so far and the next fresh address. Memory allocation is taken to
  succeed.
\<close>

record evdns =
  req_head :: "request list"
  req_waiting_head :: "request list"
  server_head :: "nameserver list"
  global_good_nameservers :: int
  global_requests_inflight :: int
  global_requests_waiting :: int
  global_max_requests_inflight :: int
  global_timeout :: int
  global_max_reissues :: int
  global_max_retransmits :: int
  global_max_nameserver_timeout :: int
  global_search_state :: "nat option"
  search_states :: "nat \<Rightarrow> search_state option"
  entropy :: "u16 list"
  sends :: "send_result list"
  sockets :: "sock_result list"
  sent :: "(nat \<times> nat) list"
  callbacks :: "callback_event list"
  next_ptr :: nat

section \<open>Transaction ids\<close>

text \<open>The position of the first element of a ring that satisfies a test.\<close>

fun find_pos :: "('a \<Rightarrow> bool) \<Rightarrow> 'a list \<Rightarrow> nat option" where
  "find_pos P [] = None"
| "find_pos P (x # xs) = (if P x then Some 0 else map_option Suc (find_pos P xs))"

text \<open>
  \<open>request_find_from_trans_id\<close>: the first request of the inflight ring with this id,
  as its position in the ring; \<open>None\<close> for NULL.
\<close>

definition request_find_from_trans_id :: "u16 \<Rightarrow> evdns \<Rightarrow> nat option" where
  "request_find_from_trans_id t s = find_pos (\<lambda>r. trans_id r = t) (req_head s)"

text \<open>
  The scan of \<open>transaction_id_pick\<close>: the position in the ring at which
  \<open>do { if (req->trans_id == trans_id) break; req = req->next; } while (req != started_at)\<close>
  leaves \<open>req\<close>. Running past the last request wraps around to position 0.
\<close>

fun trans_id_scan :: "u16 \<Rightarrow> request list \<Rightarrow> nat \<Rightarrow> nat" where
  "trans_id_scan t [] i = 0"
| "trans_id_scan t (r # rs) i = (if trans_id r = t then i else trans_id_scan t rs (Suc i))"

text \<open>
  The outer loop of \<open>transaction_id_pick\<close> over the values of the id source: 0xffff is
  skipped, and the value is returned when \<open>req == started_at\<close> after the scan.
\<close>

fun transaction_id_loop :: "u16 list \<Rightarrow> request list \<Rightarrow> (u16 \<times> u16 list) option" where
  "transaction_id_loop [] reqs = None"
| "transaction_id_loop (t # ts) reqs =
     (if t = 0xffff then transaction_id_loop ts reqs
      else if trans_id_scan t reqs 0 = 0 then Some (t, ts)
      else transaction_id_loop ts reqs)"

definition transaction_id_pick :: "evdns \<Rightarrow> error + (u16 \<times> evdns)" where
  "transaction_id_pick s =
     (case transaction_id_loop (entropy s) (req_head s) of
        None \<Rightarrow> Inl EntropyExhausted
      | Some (t, rest) \<Rightarrow> Inr (t, s\<lparr>entropy := rest\<rparr>))"

section \<open>Wire codec\<close>

definition byte_of_char :: "char \<Rightarrow> u8" where
  "byte_of_char c = of_nat (of_char c)"

definition char_of_byte :: "u8 \<Rightarrow> char" where
  "char_of_byte b = char_of (unat b)"

text \<open>\<open>htons\<close> followed by \<open>memcpy\<close>: the two bytes of a 16-bit value, high byte first.\<close>

definition bytes16 :: "u16 \<Rightarrow> u8 list" where
  "bytes16 x = [ucast (drop_bit 8 x), ucast x]"

text \<open>
  The macro \<open>APPEND16\<close>: the buffer is the list of the bytes written so far, the offset
  \<open>j\<close> is its length. The macro returns -2 from the enclosing function when the two
  bytes do not fit.
\<close>

definition APPEND16 :: "nat \<Rightarrow> u8 list \<Rightarrow> u16 \<Rightarrow> int + u8 list" where
  "APPEND16 buf_len buf x =
     (if length buf + 2 > buf_len then Inl (- 2) else Inr (buf @ bytes16 x))"

text \<open>
  One label of \<open>dnsname_to_labels\<close>: the two checks, the length byte and the bytes of
  the label.
\<close>

definition append_label :: "nat \<Rightarrow> u8 list \<Rightarrow> string \<Rightarrow> int + u8 list" where
  "append_label buf_len buf label =
     (if length label > 63 then Inl (- 1)
      else if length buf + length label + 1 > buf_len then Inl (- 2)
      else Inr (buf @ [of_nat (length label)] @ map byte_of_char label))"

text \<open>
  The loop of \<open>dnsname_to_labels\<close> for \<open>table == NULL\<close> (the resolver never passes a
  table). \<open>label\<close> holds the characters between \<open>start\<close> and the position that
  \<open>strchr\<close> is scanning.
\<close>

fun dnsname_labels_loop :: "nat \<Rightarrow> u8 list \<Rightarrow> string \<Rightarrow> string \<Rightarrow> int + u8 list" where
  "dnsname_labels_loop buf_len buf label [] = append_label buf_len buf label"
| "dnsname_labels_loop buf_len buf label (c # cs) =
     (if c = CHR ''.'' then
        (case append_label buf_len buf label of
           Inl e \<Rightarrow> Inl e
         | Inr buf' \<Rightarrow> dnsname_labels_loop buf_len buf' [] cs)
      else dnsname_labels_loop buf_len buf (label @ [c]) cs)"

definition dnsname_to_labels :: "nat \<Rightarrow> u8 list \<Rightarrow> string \<Rightarrow> int + u8 list" where
  "dnsname_to_labels buf_len buf name =
     (if length name > 255 then Inl (- 2)
      else case dnsname_labels_loop buf_len buf [] name of
             Inl e \<Rightarrow> Inl e
           | Inr buf' \<Rightarrow> Inr (if buf' = [] \<or> last buf' \<noteq> 0 then buf' @ [0] else buf'))"

definition evdns_request_len :: "nat \<Rightarrow> nat" where
  "evdns_request_len name_len = 96 + name_len + 2 + 4"

definition app16 :: "nat \<Rightarrow> u16 \<Rightarrow> int + u8 list \<Rightarrow> int + u8 list" where
  "app16 buf_len x m = (case m of Inl e \<Rightarrow> Inl e | Inr buf \<Rightarrow> APPEND16 buf_len buf x)"

definition evdns_request_data_build ::
  "string \<Rightarrow> u16 \<Rightarrow> u16 \<Rightarrow> u16 \<Rightarrow> nat \<Rightarrow> int + u8 list" where
  "evdns_request_data_build name tid ty cls buf_len =
     (case app16 buf_len 0 (app16 buf_len 0 (app16 buf_len 0 (app16 buf_len 1
             (app16 buf_len 0x0100 (app16 buf_len tid (Inr [])))))) of
        Inl e \<Rightarrow> Inl e
      | Inr buf \<Rightarrow>
          (case dnsname_to_labels buf_len buf name of
             Inl e \<Rightarrow> Inl e
           | Inr buf' \<Rightarrow> app16 buf_len cls (app16 buf_len ty (Inr buf'))))"

text \<open>
  \<open>name_parse\<close>. One turn of its \<open>for (;;)\<close> loop either returns (\<open>Stop\<close>: \<open>None\<close> for
  -1, otherwise the new \<open>*idx\<close> and the decoded name) or goes on with new values of
  \<open>j\<close>, \<open>name_end\<close> (\<open>None\<close> for -1) and the characters written to \<open>name_out\<close>. The
  \<open>memcpy\<close> of a label does not check the packet's length; bytes past the end are
  whatever the list operations give, and the next turn returns -1 in that case.
\<close>

datatype ('a, 'b) loop_step = Stop 'a | Continue 'b

definition name_parse_step ::
  "u8 list \<Rightarrow> nat \<Rightarrow> (nat \<times> nat option \<times> string)
     \<Rightarrow> ((nat \<times> string) option, nat \<times> nat option \<times> string) loop_step" where
  "name_parse_step packet name_out_len st =
     (case st of (j, name_end, out) \<Rightarrow>
        if j \<ge> length packet then Stop None
        else
          let label_len = packet ! j; j = j + 1 in
          if label_len = 0 then
            (if length out \<ge> name_out_len then Stop None
             else Stop (Some (case name_end of None \<Rightarrow> j | Some e \<Rightarrow> e, out)))
          else if label_len AND 0xc0 \<noteq> 0 then
            (if j \<ge> length packet then Stop None
             else
               let ptr_low = packet ! j; j = j + 1;
                   name_end = (case name_end of None \<Rightarrow> Some j | Some e \<Rightarrow> Some e);
                   j = unat (label_len AND 0x3f) * 256 + unat ptr_low in
               if j \<ge> length packet then Stop None else Continue (j, name_end, out))
          else if label_len > 63 then Stop None
          else
            (let dot = (out \<noteq> []) in
             if dot \<and> length out + 1 \<ge> name_out_len then Stop None
             else
               let out = (if dot then out @ ''.'' else out) in
               if length out + unat label_len \<ge> name_out_len then Stop None
               else Continue (j + unat label_len, name_end,
                      out @ map char_of_byte (take (unat label_len) (drop j packet)))))"

text \<open>The loop may run forever; not returning is the value \<open>None\<close>.\<close>

partial_function (option) name_parse_loop ::
  "u8 list \<Rightarrow> nat \<Rightarrow> (nat \<times> nat option \<times> string) \<Rightarrow> (nat \<times> string) option option" where
  "name_parse_loop packet name_out_len st =
     (case name_parse_step packet name_out_len st of
        Stop r \<Rightarrow> Some r
      | Continue st' \<Rightarrow> name_parse_loop packet name_out_len st')"

declare name_parse_loop.simps [code]

definition name_parse :: "u8 list \<Rightarrow> nat \<Rightarrow> nat \<Rightarrow> (nat \<times> string) option option" where
  "name_parse packet idx name_out_len = name_parse_loop packet name_out_len (idx, None, [])"

section \<open>Nameserver registry\<close>

text \<open>Following a nameserver pointer: the struct with this address, if it is in the ring.\<close>

definition find_ns :: "nat \<Rightarrow> evdns \<Rightarrow> nameserver option" where
  "find_ns p s = find (\<lambda>n. ns_ptr n = p) (server_head s)"

text \<open>Writing through a nameserver pointer.\<close>

definition upd_ns :: "nat \<Rightarrow> (nameserver \<Rightarrow> nameserver) \<Rightarrow> evdns \<Rightarrow> evdns" where
  "upd_ns p f s = s\<lparr>server_head := map (\<lambda>n. if ns_ptr n = p then f n else n) (server_head s)\<rparr>"

text \<open>Writing to the request at position \<open>i\<close> of the inflight ring.\<close>

definition upd_req :: "nat \<Rightarrow> (request \<Rightarrow> request) \<Rightarrow> evdns \<Rightarrow> evdns" where
  "upd_req i f s = s\<lparr>req_head := (req_head s)[i := f (req_head s ! i)]\<rparr>"

definition global_nameserver_timeouts :: "int list" where
  "global_nameserver_timeouts = [10, 60, 300, 900, 3600]"

text \<open>
  \<open>nameserver_pick\<close>. With no good nameserver the head moves one step and the new head
  is returned. Otherwise the ring is walked from the head to the first server that is up;
  the head is left at its successor. If a full turn finds none, \<open>assert
  (global_good_nameservers == 0)\<close> fails, since the counter is not 0 on this path.
\<close>

definition nameserver_pick :: "evdns \<Rightarrow> error + (nat option \<times> evdns)" where
  "nameserver_pick s =
     (case server_head s of
        [] \<Rightarrow> Inr (None, s)
      | h # t \<Rightarrow>
          if global_good_nameservers s = 0 then
            (let l = t @ [h] in Inr (Some (ns_ptr (hd l)), s\<lparr>server_head := l\<rparr>))
          else
            (case dropWhile (\<lambda>n. \<not> state n) (server_head s) of
               [] \<Rightarrow> Inl AssertFail
             | picked # rest \<Rightarrow>
                 Inr (Some (ns_ptr picked),
                      s\<lparr>server_head := rest @ takeWhile (\<lambda>n. \<not> state n) (server_head s) @ [picked]\<rparr>)))"

text \<open>
  The walk of \<open>nameserver_failed\<close> over the inflight ring: a request that has not been
  sent yet and is assigned to the failed server gets the next pick.
\<close>

primrec reassign_walk :: "nat \<Rightarrow> request list \<Rightarrow> evdns \<Rightarrow> error + (request list \<times> evdns)" where
  "reassign_walk p [] s = Inr ([], s)"
| "reassign_walk p (r # rs) s =
     (if tx_count r = 0 \<and> ns r = Some p then
        bnd (nameserver_pick s) (\<lambda>(q, s').
        bnd (reassign_walk p rs s') (\<lambda>(rs', s'').
        Inr (r\<lparr>ns := q\<rparr> # rs', s'')))
      else
        bnd (reassign_walk p rs s) (\<lambda>(rs', s''). Inr (r # rs', s'')))"

definition nameserver_failed :: "nat \<Rightarrow> evdns \<Rightarrow> error + evdns" where
  "nameserver_failed p s =
     (case find_ns p s of
        None \<Rightarrow> Inl BadPointer
      | Some n \<Rightarrow>
          if \<not> state n then Inr s
          else
            let s1 = s\<lparr>global_good_nameservers := global_good_nameservers s - 1\<rparr> in
            if global_good_nameservers s1 < 0 then Inl AssertFail
            else
              let s2 = upd_ns p (\<lambda>n. n\<lparr>state := False, failed_times := 1,
                                         probe_timer := Some (global_nameserver_timeouts ! 0)\<rparr>) s1 in
              if global_good_nameservers s2 = 0 then Inr s2
              else bnd (reassign_walk p (req_head s2) s2) (\<lambda>(rs, s3). Inr (s3\<lparr>req_head := rs\<rparr>)))"

text \<open>A call through \<open>req->ns\<close>: a NULL pointer is dereferenced by the callee.\<close>

definition with_ns :: "nat option \<Rightarrow> (nat \<Rightarrow> evdns \<Rightarrow> error + 'a) \<Rightarrow> evdns \<Rightarrow> error + 'a" where
  "with_ns q f s = (case q of None \<Rightarrow> Inl NullDeref | Some p \<Rightarrow> f p s)"

definition nameserver_up :: "nat \<Rightarrow> evdns \<Rightarrow> error + evdns" where
  "nameserver_up p s =
     (case find_ns p s of
        None \<Rightarrow> Inl BadPointer
      | Some n \<Rightarrow>
          if state n then Inr s
          else Inr ((upd_ns p (\<lambda>n. n\<lparr>probe_timer := None, state := True, failed_times := 0,
                                     timedout := 0\<rparr>) s)
                    \<lparr>global_good_nameservers := global_good_nameservers s + 1\<rparr>))"

definition nameserver_probe_failed :: "nat \<Rightarrow> evdns \<Rightarrow> error + evdns" where
  "nameserver_probe_failed p s =
     (case find_ns p s of
        None \<Rightarrow> Inl BadPointer
      | Some n \<Rightarrow>
          if state n then Inr (upd_ns p (\<lambda>n. n\<lparr>probe_timer := None\<rparr>) s)
          else if failed_times n < 0 then Inl OutOfBounds
          else Inr (upd_ns p (\<lambda>n. n\<lparr>failed_times := failed_times n + 1,
                       probe_timer := Some (global_nameserver_timeouts !
                          nat (min (failed_times n) (int (length global_nameserver_timeouts) - 1)))\<rparr>) s))"

definition nameserver_write_waiting :: "nat \<Rightarrow> bool \<Rightarrow> evdns \<Rightarrow> evdns" where
  "nameserver_write_waiting p waiting s =
     upd_ns p (\<lambda>n. if write_waiting n = waiting then n else n\<lparr>write_waiting := waiting\<rparr>) s"

section \<open>Request engine\<close>

definition request_trans_id_set :: "request \<Rightarrow> u16 \<Rightarrow> request" where
  "request_trans_id_set req t = req\<lparr>trans_id := t, request := bytes16 t @ drop 2 (request req)\<rparr>"

text \<open>\<open>evdns_request_insert\<close> puts a request at the tail of a ring.\<close>

definition evdns_request_insert :: "request \<Rightarrow> request list \<Rightarrow> request list" where
  "evdns_request_insert req ring = ring @ [req]"

text \<open>
  \<open>evdns_request_transmit_to\<close>: the next outcome of \<open>send\<close> is taken from the
  environment (success when none is listed); a datagram sent in full is recorded.
\<close>

definition evdns_request_transmit_to :: "nat \<Rightarrow> nat \<Rightarrow> evdns \<Rightarrow> error + (int \<times> evdns)" where
  "evdns_request_transmit_to i server s =
     (let r = (case sends s of [] \<Rightarrow> SendOk | x # xs \<Rightarrow> x);
          s1 = s\<lparr>sends := tl (sends s)\<rparr> in
      case r of
        SendError \<Rightarrow> bnd (with_ns (ns (req_head s1 ! i)) nameserver_failed s1) (\<lambda>s2. Inr (2, s2))
      | SendAgain \<Rightarrow> Inr (1, s1)
      | SendShort \<Rightarrow> Inr (1, s1)
      | SendOk \<Rightarrow> Inr (0, s1\<lparr>sent := sent s1 @ [(rid (req_head s1 ! i), server)]\<rparr>))"

text \<open>
  \<open>evdns_request_transmit\<close> for the request at position \<open>i\<close> of the inflight ring;
  the result is the return code and the new state.
\<close>

definition evdns_request_transmit :: "nat \<Rightarrow> evdns \<Rightarrow> error + (int \<times> evdns)" where
  "evdns_request_transmit i s =
     (if i \<ge> length (req_head s) then Inl BadPointer
      else
        let s1 = upd_req i (\<lambda>r. r\<lparr>transmit_me := True\<rparr>) s in
        if trans_id (req_head s1 ! i) = 0xffff then Inl Abort
        else
          (case ns (req_head s1 ! i) of
             None \<Rightarrow> Inl NullDeref
           | Some p \<Rightarrow>
               (case find_ns p s1 of
                  None \<Rightarrow> Inl BadPointer
                | Some srv \<Rightarrow>
                    if choaked srv then Inr (1, s1)
                    else
                      bnd (evdns_request_transmit_to i p s1) (\<lambda>(r, s2).
                        if r = 1 then
                          with_ns (ns (req_head s2 ! i))
                            (\<lambda>q s3. Inr (1, nameserver_write_waiting q True
                                             (upd_ns q (\<lambda>n. n\<lparr>choaked := True\<rparr>) s3))) s2
                        else
                          Inr (if r = 2 then 1 else 0,
                               upd_req i (\<lambda>r. r\<lparr>timeout_event := True, tx_count := tx_count r + 1,
                                                 transmit_me := False\<rparr>) s2)))))"

text \<open>
  \<open>evdns_transmit\<close> visits every position of the inflight ring once, starting at the
  head; transmitting does not add or remove requests.
\<close>

primrec evdns_transmit_loop :: "nat list \<Rightarrow> bool \<Rightarrow> evdns \<Rightarrow> error + (bool \<times> evdns)" where
  "evdns_transmit_loop [] did s = Inr (did, s)"
| "evdns_transmit_loop (i # is) did s =
     (if transmit_me (req_head s ! i) then
        bnd (evdns_request_transmit i s) (\<lambda>(r, s'). evdns_transmit_loop is True s')
      else evdns_transmit_loop is did s)"

definition evdns_transmit :: "evdns \<Rightarrow> error + (bool \<times> evdns)" where
  "evdns_transmit s = evdns_transmit_loop [0..<length (req_head s)] False s"

text \<open>
  The body of the loop of \<open>evdns_requests_pump_waiting_queue\<close>, after the head of the
  waiting ring has been unlinked.
\<close>

definition pump_one :: "request \<Rightarrow> evdns \<Rightarrow> error + evdns" where
  "pump_one req s =
     (let s1 = s\<lparr>global_requests_waiting := global_requests_waiting s - 1,
                 global_requests_inflight := global_requests_inflight s + 1\<rparr> in
      bnd (nameserver_pick s1) (\<lambda>(q, s2).
      bnd (transaction_id_pick s2) (\<lambda>(t, s3).
        let s4 = s3\<lparr>req_head := evdns_request_insert (request_trans_id_set (req\<lparr>ns := q\<rparr>) t)
                                   (req_head s3)\<rparr> in
        bnd (evdns_request_transmit (length (req_head s4) - 1) s4) (\<lambda>(r, s5).
        bnd (evdns_transmit s5) (\<lambda>(d, s6). Inr s6)))))"

function evdns_requests_pump_waiting_queue :: "evdns \<Rightarrow> error + evdns" where
  "evdns_requests_pump_waiting_queue s =
     (if global_requests_inflight s < global_max_requests_inflight s
         \<and> global_requests_waiting s \<noteq> 0 then
        (case req_waiting_head s of
           [] \<Rightarrow> Inl AssertFail
         | req # rest \<Rightarrow>
             (case pump_one req (s\<lparr>req_waiting_head := rest\<rparr>) of
                Inl e \<Rightarrow> Inl e
              | Inr s' \<Rightarrow> evdns_requests_pump_waiting_queue s'))
      else Inr s)"
  by pat_completeness auto

subsection \<open>Termination of the pump\<close>

lemma bnd_Inl [simp]: "bnd (Inl e) f = Inl e"
  and bnd_Inr [simp]: "bnd (Inr x) f = f x"
  by (simp_all add: bnd_def)

lemma bnd_eq_Inr: "bnd m f = Inr y \<longleftrightarrow> (\<exists>x. m = Inr x \<and> f x = Inr y)"
  by (cases m) simp_all

text \<open>
  Transmitting touches only the two rings' requests in place, the nameservers, the count
  of good nameservers and the record of the traffic: two states that agree after these
  fields are blanked agree on everything else.
\<close>

definition mask_tx :: "evdns \<Rightarrow> evdns" where
  "mask_tx s = s\<lparr>req_head := [], server_head := [], global_good_nameservers := 0,
                 sends := [], sent := []\<rparr>"

lemma mask_tx_upd [simp]:
  "mask_tx (s\<lparr>req_head := a\<rparr>) = mask_tx s"
  "mask_tx (s\<lparr>server_head := b\<rparr>) = mask_tx s"
  "mask_tx (s\<lparr>global_good_nameservers := c\<rparr>) = mask_tx s"
  "mask_tx (s\<lparr>sends := d\<rparr>) = mask_tx s"
  "mask_tx (s\<lparr>sent := e\<rparr>) = mask_tx s"
  by (simp_all add: mask_tx_def)

lemma mask_tx_upd_ns [simp]: "mask_tx (upd_ns p f s) = mask_tx s"
  by (simp add: upd_ns_def)

lemma mask_tx_upd_req [simp]: "mask_tx (upd_req i f s) = mask_tx s"
  by (simp add: upd_req_def)

lemma mask_tx_fields:
  assumes "mask_tx s' = mask_tx s"
  shows "req_waiting_head s' = req_waiting_head s"
    and "global_requests_inflight s' = global_requests_inflight s"
    and "global_requests_waiting s' = global_requests_waiting s"
    and "global_max_requests_inflight s' = global_max_requests_inflight s"
    and "entropy s' = entropy s"
    and "callbacks s' = callbacks s"
    and "next_ptr s' = next_ptr s"
    and "search_states s' = search_states s"
    and "global_search_state s' = global_search_state s"
    and "global_max_reissues s' = global_max_reissues s"
    and "global_max_retransmits s' = global_max_retransmits s"
    and "global_max_nameserver_timeout s' = global_max_nameserver_timeout s"
    and "global_timeout s' = global_timeout s"
    and "sockets s' = sockets s"
  using assms [THEN arg_cong, of req_waiting_head]
    assms [THEN arg_cong, of global_requests_inflight]
    assms [THEN arg_cong, of global_requests_waiting]
    assms [THEN arg_cong, of global_max_requests_inflight]
    assms [THEN arg_cong, of entropy]
    assms [THEN arg_cong, of callbacks]
    assms [THEN arg_cong, of next_ptr]
    assms [THEN arg_cong, of search_states]
    assms [THEN arg_cong, of global_search_state]
    assms [THEN arg_cong, of global_max_reissues]
    assms [THEN arg_cong, of global_max_retransmits]
    assms [THEN arg_cong, of global_max_nameserver_timeout]
    assms [THEN arg_cong, of global_timeout]
    assms [THEN arg_cong, of sockets]
  by (simp_all add: mask_tx_def)

lemma nameserver_pick_mask: "nameserver_pick s = Inr (q, s') \<Longrightarrow> mask_tx s' = mask_tx s"
  by (auto simp: nameserver_pick_def Let_def split: list.splits if_splits)

lemma reassign_walk_mask: "reassign_walk p rs s = Inr (rs', s') \<Longrightarrow> mask_tx s' = mask_tx s"
proof (induction rs arbitrary: s rs' s')
  case Nil
  then show ?case by simp
next
  case (Cons r rs)
  then show ?case
    by (auto simp: bnd_eq_Inr split: if_splits dest!: nameserver_pick_mask)
qed

lemma nameserver_failed_mask: "nameserver_failed p s = Inr s' \<Longrightarrow> mask_tx s' = mask_tx s"
  by (auto simp: nameserver_failed_def Let_def bnd_eq_Inr split: option.splits if_splits
      dest!: reassign_walk_mask)

lemma evdns_request_transmit_to_mask:
  "evdns_request_transmit_to i p s = Inr (r, s') \<Longrightarrow> mask_tx s' = mask_tx s"
  by (auto simp: evdns_request_transmit_to_def Let_def bnd_eq_Inr with_ns_def
      split: send_result.splits option.splits dest!: nameserver_failed_mask)

lemma evdns_request_transmit_mask:
  "evdns_request_transmit i s = Inr (r, s') \<Longrightarrow> mask_tx s' = mask_tx s"
  by (auto simp: evdns_request_transmit_def Let_def bnd_eq_Inr with_ns_def
      nameserver_write_waiting_def
      split: option.splits if_splits dest!: evdns_request_transmit_to_mask)

lemma evdns_transmit_loop_mask:
  "evdns_transmit_loop is d s = Inr (d', s') \<Longrightarrow> mask_tx s' = mask_tx s"
  by (induction "is" arbitrary: d s)
     (auto simp: bnd_eq_Inr split: if_splits dest!: evdns_request_transmit_mask)

lemma evdns_transmit_mask: "evdns_transmit s = Inr (d, s') \<Longrightarrow> mask_tx s' = mask_tx s"
  unfolding evdns_transmit_def by (rule evdns_transmit_loop_mask)

lemma transaction_id_pick_waiting:
  "transaction_id_pick s = Inr (t, s') \<Longrightarrow> req_waiting_head s' = req_waiting_head s"
  by (auto simp: transaction_id_pick_def split: option.splits)

lemma pump_one_unfold:
  assumes "pump_one req s = Inr s'"
  obtains q s2 t s3 r s5 d where
    "nameserver_pick (s\<lparr>global_requests_waiting := global_requests_waiting s - 1,
        global_requests_inflight := global_requests_inflight s + 1\<rparr>) = Inr (q, s2)"
    and "transaction_id_pick s2 = Inr (t, s3)"
    and "evdns_request_transmit (length (req_head s3))
           (s3\<lparr>req_head := req_head s3 @ [request_trans_id_set (req\<lparr>ns := q\<rparr>) t]\<rparr>) = Inr (r, s5)"
    and "evdns_transmit s5 = Inr (d, s')"
  using assms by (auto simp: pump_one_def Let_def bnd_eq_Inr evdns_request_insert_def)

lemma pump_one_waiting:
  assumes "pump_one req s = Inr s'"
  shows "req_waiting_head s' = req_waiting_head s"
proof -
  from assms obtain q s2 t s3 r s5 d where
    pick: "nameserver_pick (s\<lparr>global_requests_waiting := global_requests_waiting s - 1,
        global_requests_inflight := global_requests_inflight s + 1\<rparr>) = Inr (q, s2)"
    and tid: "transaction_id_pick s2 = Inr (t, s3)"
    and tx: "evdns_request_transmit (length (req_head s3))
           (s3\<lparr>req_head := req_head s3 @ [request_trans_id_set (req\<lparr>ns := q\<rparr>) t]\<rparr>) = Inr (r, s5)"
    and txall: "evdns_transmit s5 = Inr (d, s')"
    by (rule pump_one_unfold)
  have "req_waiting_head s' = req_waiting_head s5"
    using mask_tx_fields(1) [OF evdns_transmit_mask [OF txall]] .
  also have "\<dots> = req_waiting_head s3"
    using mask_tx_fields(1) [OF evdns_request_transmit_mask [OF tx]] by simp
  also have "\<dots> = req_waiting_head s2"
    using transaction_id_pick_waiting [OF tid] .
  also have "\<dots> = req_waiting_head s"
    using mask_tx_fields(1) [OF nameserver_pick_mask [OF pick]] by simp
  finally show ?thesis .
qed

termination evdns_requests_pump_waiting_queue
proof (relation "measure (\<lambda>s. length (req_waiting_head s))")
  show "wf (measure (\<lambda>s. length (req_waiting_head s)))" by simp
next
  fix s :: evdns and req rest s'
  assume "req_waiting_head s = req # rest"
    and "pump_one req (s\<lparr>req_waiting_head := rest\<rparr>) = Inr s'"
  then show "(s', s) \<in> measure (\<lambda>s. length (req_waiting_head s))"
    using pump_one_waiting [of req "s\<lparr>req_waiting_head := rest\<rparr>" s'] by simp
qed

declare evdns_requests_pump_waiting_queue.simps [simp del]

section \<open>Search suffixes\<close>

definition search_state_new :: "evdns \<Rightarrow> nat \<times> evdns" where
  "search_state_new s =
     (next_ptr s,
      s\<lparr>search_states := (search_states s)(next_ptr s \<mapsto>
             \<lparr>refcount = 1, ndots = 1, num_domains = 0, head = []\<rparr>),
        next_ptr := Suc (next_ptr s)\<rparr>)"

text \<open>\<open>search_state_decref\<close>: the object is freed when its count reaches 0.\<close>

definition search_state_decref :: "nat option \<Rightarrow> evdns \<Rightarrow> error + evdns" where
  "search_state_decref q s =
     (case q of
        None \<Rightarrow> Inr s
      | Some p \<Rightarrow>
          (case search_states s p of
             None \<Rightarrow> Inl BadPointer
           | Some st \<Rightarrow>
               if refcount st - 1 = 0 then Inr (s\<lparr>search_states := (search_states s)(p := None)\<rparr>)
               else Inr (s\<lparr>search_states := (search_states s)(p \<mapsto> st\<lparr>refcount := refcount st - 1\<rparr>)\<rparr>)))"

definition search_postfix_clear :: "evdns \<Rightarrow> error + evdns" where
  "search_postfix_clear s =
     bnd (search_state_decref (global_search_state s) s) (\<lambda>s1.
       case search_state_new s1 of (p, s2) \<Rightarrow> Inr (s2\<lparr>global_search_state := Some p\<rparr>))"

text \<open>Writing through a search state pointer.\<close>

definition upd_search :: "nat \<Rightarrow> (search_state \<Rightarrow> search_state) \<Rightarrow> evdns \<Rightarrow> error + evdns" where
  "upd_search p f s =
     (case search_states s p of
        None \<Rightarrow> Inl BadPointer
      | Some st \<Rightarrow> Inr (s\<lparr>search_states := (search_states s)(p \<mapsto> f st)\<rparr>))"

text \<open>\<open>if (!global_search_state) global_search_state = search_state_new();\<close>\<close>

definition ensure_search_state :: "evdns \<Rightarrow> nat \<times> evdns" where
  "ensure_search_state s =
     (case global_search_state s of
        Some p \<Rightarrow> (p, s)
      | None \<Rightarrow> (case search_state_new s of (p, s1) \<Rightarrow> (p, s1\<lparr>global_search_state := Some p\<rparr>)))"

definition search_postfix_add :: "string \<Rightarrow> evdns \<Rightarrow> error + evdns" where
  "search_postfix_add domain s =
     (let dom = dropWhile (\<lambda>c. c = CHR ''.'') domain in
      case ensure_search_state s of (p, s1) \<Rightarrow>
        upd_search p (\<lambda>st. st\<lparr>num_domains := num_domains st + 1, head := dom # head st\<rparr>) s1)"

definition search_reverse :: "evdns \<Rightarrow> error + evdns" where
  "search_reverse s =
     (case global_search_state s of
        None \<Rightarrow> Inl NullDeref
      | Some p \<Rightarrow> upd_search p (\<lambda>st. st\<lparr>head := rev (head st)\<rparr>) s)"

definition evdns_search_clear :: "evdns \<Rightarrow> error + evdns" where
  "evdns_search_clear s = search_postfix_clear s"

definition evdns_search_add :: "string \<Rightarrow> evdns \<Rightarrow> error + evdns" where
  "evdns_search_add domain s = search_postfix_add domain s"

definition evdns_search_ndots_set :: "int \<Rightarrow> evdns \<Rightarrow> error + evdns" where
  "evdns_search_ndots_set n s =
     (case ensure_search_state s of (p, s1) \<Rightarrow> upd_search p (\<lambda>st. st\<lparr>ndots := n\<rparr>) s1)"

text \<open>\<open>search_set_from_hostname\<close>; the argument is what \<open>gethostname\<close> yields, if it succeeds.\<close>

definition search_set_from_hostname :: "string option \<Rightarrow> evdns \<Rightarrow> error + evdns" where
  "search_set_from_hostname hostname s =
     bnd (search_postfix_clear s) (\<lambda>s1.
       case hostname of
         None \<Rightarrow> Inr s1
       | Some h \<Rightarrow>
           (case dropWhile (\<lambda>c. c \<noteq> CHR ''.'') h of
              [] \<Rightarrow> Inr s1
            | domainname \<Rightarrow> search_postfix_add domainname s1))"

definition string_num_dots :: "string \<Rightarrow> int" where
  "string_num_dots str = int (length (filter (\<lambda>c. c = CHR ''.'') str))"

text \<open>
  \<open>search_make_new\<close>: \<open>base_name[base_len - 1]\<close> is read before the list is walked, and
  running off the end of the list is \<open>abort()\<close>.
\<close>

definition search_make_new :: "search_state \<Rightarrow> int \<Rightarrow> string \<Rightarrow> error + string" where
  "search_make_new st n base_name =
     (if base_name = [] then Inl OutOfBounds
      else if n < 0 \<or> nat n \<ge> length (head st) then Inl Abort
      else Inr (base_name @ (if last base_name = CHR ''.'' then [] else ''.'') @ head st ! nat n))"

section \<open>Creating and submitting requests\<close>

text \<open>
  \<open>request_new\<close>; the result is NULL (\<open>None\<close>) when the query cannot be encoded. The
  new struct gets the next fresh address.
\<close>

definition request_new ::
  "nat \<Rightarrow> string \<Rightarrow> u32 \<Rightarrow> evdns_callback_type \<Rightarrow> nat \<Rightarrow> evdns
     \<Rightarrow> error + (request option \<times> evdns)" where
  "request_new ty nm fl cb arg s =
     (let issuing_now = (global_requests_inflight s < global_max_requests_inflight s) in
      bnd (if issuing_now then transaction_id_pick s else Inr (0xffff, s)) (\<lambda>(t, s1).
        case evdns_request_data_build nm t (of_nat ty) (of_nat CLASS_INET)
               (evdns_request_len (length nm)) of
          Inl e \<Rightarrow> Inr (None, s1)
        | Inr pkt \<Rightarrow>
            bnd (if issuing_now then nameserver_pick s1 else Inr (None, s1)) (\<lambda>(q, s2).
              Inr (Some \<lparr>rid = next_ptr s2, request = pkt, reissue_count = 0, tx_count = 0,
                         request_type = ty, user_pointer = arg, user_callback = cb, ns = q,
                         search_index = 0, search_state = None, search_origname = None,
                         search_flags = 0, timeout_event = False, trans_id = t,
                         transmit_me = False\<rparr>,
                   s2\<lparr>next_ptr := Suc (next_ptr s2)\<rparr>))))"

definition request_submit :: "request \<Rightarrow> evdns \<Rightarrow> error + evdns" where
  "request_submit req s =
     (if ns req \<noteq> None then
        (let s1 = s\<lparr>req_head := evdns_request_insert req (req_head s),
                    global_requests_inflight := global_requests_inflight s + 1\<rparr> in
         bnd (evdns_request_transmit (length (req_head s1) - 1) s1) (\<lambda>(r, s2). Inr s2))
      else
        Inr (s\<lparr>req_waiting_head := evdns_request_insert req (req_waiting_head s),
               global_requests_waiting := global_requests_waiting s + 1\<rparr>))"

definition search_request_new ::
  "nat \<Rightarrow> string \<Rightarrow> u32 \<Rightarrow> evdns_callback_type \<Rightarrow> nat \<Rightarrow> evdns \<Rightarrow> error + (int \<times> evdns)" where
  "search_request_new ty nm fl cb arg s =
     (if ty \<noteq> TYPE_A then Inl AssertFail
      else
        let plain = bnd (request_new ty nm fl cb arg s) (\<lambda>(nr, s1).
              case nr of
                None \<Rightarrow> Inr (1, s1)
              | Some req \<Rightarrow> bnd (request_submit req s1) (\<lambda>s2. Inr (0, s2))) in
        if fl AND DNS_QUERY_NO_SEARCH = 0 then
          (case global_search_state s of
             None \<Rightarrow> plain
           | Some p \<Rightarrow>
               (case search_states s p of
                  None \<Rightarrow> Inl BadPointer
                | Some st \<Rightarrow>
                    if num_domains st = 0 then plain
                    else
                      bnd (if string_num_dots nm \<ge> ndots st then Inr (nm, - 1)
                           else bnd (search_make_new st 0 nm) (\<lambda>new_name. Inr (new_name, 0)))
                        (\<lambda>(qname, idx).
                      bnd (request_new ty qname fl cb arg s) (\<lambda>(nr, s1).
                        case nr of
                          None \<Rightarrow> Inr (1, s1)
                        | Some req \<Rightarrow>
                            bnd (upd_search p (\<lambda>st. st\<lparr>refcount := refcount st + 1\<rparr>) s1) (\<lambda>s2.
                            bnd (request_submit
                                   (req\<lparr>search_index := idx, search_origname := Some nm,
                                        search_state := Some p, search_flags := fl\<rparr>) s2)
                              (\<lambda>s3. Inr (0, s3)))))))
        else plain)"

text \<open>
  \<open>search_try_next\<close> for the request at position \<open>i\<close> of the inflight ring: 0 when
  another request has been submitted, 1 when there is nothing left to try.
\<close>

definition search_try_next :: "nat \<Rightarrow> evdns \<Rightarrow> error + (int \<times> evdns)" where
  "search_try_next i s =
     (if i \<ge> length (req_head s) then Inl BadPointer
      else
        case search_state (req_head s ! i) of
          None \<Rightarrow> Inr (1, s)
        | Some p \<Rightarrow>
            let s1 = upd_req i (\<lambda>r. r\<lparr>search_index := search_index r + 1\<rparr>) s;
                req = req_head s1 ! i in
            (case search_states s1 p of
               None \<Rightarrow> Inl BadPointer
             | Some st \<Rightarrow>
                 (case search_origname req of
                    None \<Rightarrow> Inl NullDeref
                  | Some orig \<Rightarrow>
                      if search_index req \<ge> num_domains st then
                        (if string_num_dots orig < ndots st then
                           bnd (request_new (request_type req) orig (search_flags req)
                                  (user_callback req) (user_pointer req) s1) (\<lambda>(nr, s2).
                             case nr of
                               None \<Rightarrow> Inr (1, s2)
                             | Some newreq \<Rightarrow> bnd (request_submit newreq s2) (\<lambda>s3. Inr (0, s3)))
                         else Inr (1, s1))
                      else
                        bnd (search_make_new st (search_index req) orig) (\<lambda>new_name.
                        bnd (request_new (request_type req) new_name (search_flags req)
                               (user_callback req) (user_pointer req) s1) (\<lambda>(nr, s2).
                          case nr of
                            None \<Rightarrow> Inr (1, s2)
                          | Some newreq \<Rightarrow>
                              bnd (upd_search p (\<lambda>st. st\<lparr>refcount := refcount st + 1\<rparr>)
                                     (upd_req i (\<lambda>r. r\<lparr>search_origname := None\<rparr>) s2)) (\<lambda>s3.
                              bnd (request_submit
                                     (newreq\<lparr>search_origname := Some orig, search_state := Some p,
                                             search_flags := search_flags req,
                                             search_index := search_index req\<rparr>) s3)
                                (\<lambda>s4. Inr (0, s4))))))))"

definition search_request_finished :: "request \<Rightarrow> evdns \<Rightarrow> error + evdns" where
  "search_request_finished req s = search_state_decref (search_state req) s"

text \<open>
  \<open>request_finished (req, &req_head)\<close> for the request at position \<open>i\<close>: unlinked,
  released, and the waiting ring is pumped.
\<close>

definition request_finished :: "nat \<Rightarrow> evdns \<Rightarrow> error + evdns" where
  "request_finished i s =
     (if i \<ge> length (req_head s) then Inl BadPointer
      else
        let req = req_head s ! i;
            s1 = s\<lparr>req_head := take i (req_head s) @ drop (Suc i) (req_head s)\<rparr> in
        bnd (search_request_finished req s1) (\<lambda>s2.
          evdns_requests_pump_waiting_queue
            (s2\<lparr>global_requests_inflight := global_requests_inflight s2 - 1\<rparr>)))"

definition evdns_resolve_ipv4 ::
  "string \<Rightarrow> u32 \<Rightarrow> evdns_callback_type \<Rightarrow> nat \<Rightarrow> evdns \<Rightarrow> error + (int \<times> evdns)" where
  "evdns_resolve_ipv4 nm fl cb arg s =
     (if fl AND DNS_QUERY_NO_SEARCH \<noteq> 0 then
        bnd (request_new TYPE_A nm fl cb arg s) (\<lambda>(nr, s1).
          case nr of
            None \<Rightarrow> Inr (1, s1)
          | Some req \<Rightarrow> bnd (request_submit req s1) (\<lambda>s2. Inr (0, s2)))
      else search_request_new TYPE_A nm fl cb arg s)"

text \<open>
  \<open>evdns_resolve_reverse\<close>. The argument is \<open>in->s_addr\<close>, or \<open>None\<close> for a NULL
  pointer; \<open>ntohl\<close> is that of a little-endian host, and \<open>decimal\<close> is what
  \<open>sprintf\<close> prints for \<open>%d\<close> and a byte.
\<close>

definition ntohl :: "u32 \<Rightarrow> u32" where
  "ntohl a = push_bit 24 (a AND 0xff) OR push_bit 8 (a AND 0xff00)
             OR drop_bit 8 (a AND 0xff0000) OR drop_bit 24 a"

definition decimal :: "nat \<Rightarrow> string" where
  "decimal n =
     (if n < 10 then [char_of (48 + n)]
      else if n < 100 then [char_of (48 + n div 10), char_of (48 + n mod 10)]
      else [char_of (48 + n div 100), char_of (48 + n div 10 mod 10), char_of (48 + n mod 10)])"

definition evdns_resolve_reverse ::
  "u32 option \<Rightarrow> u32 \<Rightarrow> evdns_callback_type \<Rightarrow> nat \<Rightarrow> evdns \<Rightarrow> error + (int \<times> evdns)" where
  "evdns_resolve_reverse in_addr fl cb arg s =
     (case in_addr of
        None \<Rightarrow> Inl AssertFail
      | Some s_addr \<Rightarrow>
          let a = ntohl s_addr;
              buf = decimal (unat (a AND 0xff)) @ ''.''
                    @ decimal (unat (drop_bit 8 a AND 0xff)) @ ''.''
                    @ decimal (unat (drop_bit 16 a AND 0xff)) @ ''.''
                    @ decimal (unat (drop_bit 24 a AND 0xff)) @ ''.in-addr.arpa'' in
          bnd (request_new TYPE_PTR buf fl cb arg s) (\<lambda>(nr, s1).
            case nr of
              None \<Rightarrow> Inr (1, s1)
            | Some req \<Rightarrow> bnd (request_submit req s1) (\<lambda>s2. Inr (0, s2))))"

section \<open>Replies, timeouts and probes\<close>

text \<open>\<open>struct reply\<close>; \<open>addrcount\<close> is the length of \<open>addresses\<close>.\<close>

record reply =
  reply_type :: nat
  have_answer :: bool
  addresses :: "u32 list"
  ptr_name :: string

text \<open>Modelled from the spec: the answer kinds of eventdns.h handed to the user callback.\<close>

definition DNS_IPv4_A :: nat where "DNS_IPv4_A = 1"
definition DNS_PTR :: nat where "DNS_PTR = 2"

definition nameserver_probe_callback :: "dns_err \<Rightarrow> nat \<Rightarrow> evdns \<Rightarrow> error + evdns" where
  "nameserver_probe_callback result p s =
     (if result = DNS_ERR_NONE \<or> result = DNS_ERR_NOTEXIST then nameserver_up p s
      else nameserver_probe_failed p s)"

text \<open>
  The call \<open>req->user_callback (...)\<close>. A callback of the user is recorded (it is taken
  not to call back into the resolver); the probe callback runs.
\<close>

definition call_user_callback ::
  "request \<Rightarrow> dns_err \<Rightarrow> nat \<Rightarrow> nat \<Rightarrow> u32 \<Rightarrow> reply_data \<Rightarrow> evdns \<Rightarrow> error + evdns" where
  "call_user_callback req result ty cnt ttl dat s =
     (case user_callback req of
        user_fn f \<Rightarrow>
          Inr (s\<lparr>callbacks := callbacks s @
                 [\<lparr>cb_fn = f, cb_result = result, cb_type = ty, cb_count = cnt, cb_ttl = ttl,
                   cb_data = dat, cb_arg = user_pointer req\<rparr>]\<rparr>)
      | nameserver_probe_callback_fn \<Rightarrow> nameserver_probe_callback result (user_pointer req) s)"

definition reply_callback :: "nat \<Rightarrow> u32 \<Rightarrow> dns_err \<Rightarrow> reply option \<Rightarrow> evdns \<Rightarrow> error + evdns" where
  "reply_callback i ttl err rep s =
     (if i \<ge> length (req_head s) then Inl BadPointer
      else
        let req = req_head s ! i in
        if request_type req = TYPE_A then
          (case rep of
             Some rp \<Rightarrow> call_user_callback req DNS_ERR_NONE DNS_IPv4_A (length (addresses rp)) ttl
                          (Addresses (addresses rp)) s
           | None \<Rightarrow> call_user_callback req err 0 0 0 NoData s)
        else if request_type req = TYPE_PTR then
          (case rep of
             Some rp \<Rightarrow> call_user_callback req DNS_ERR_NONE DNS_PTR 1 ttl (PtrName (ptr_name rp)) s
           | None \<Rightarrow> call_user_callback req err 0 0 0 NoData s)
        else Inl AssertFail)"

text \<open>\<open>request_reissue\<close>: 0 when the request goes to another server, 1 when it is pointless.\<close>

definition request_reissue :: "nat \<Rightarrow> evdns \<Rightarrow> error + (int \<times> evdns)" where
  "request_reissue i s =
     (let last_ns = ns (req_head s ! i) in
      bnd (nameserver_pick s) (\<lambda>(q, s1).
        let s2 = upd_req i (\<lambda>r. r\<lparr>ns := q\<rparr>) s1 in
        if q = last_ns then Inr (1, s2)
        else Inr (0, upd_req i (\<lambda>r. r\<lparr>reissue_count := reissue_count r + 1, tx_count := 0,
                                      transmit_me := True\<rparr>) s2)))"

definition error_codes :: "dns_err list" where
  "error_codes = [DNS_ERR_FORMAT, DNS_ERR_SERVERFAILED, DNS_ERR_NOTEXIST, DNS_ERR_NOTIMPL,
                  DNS_ERR_REFUSED]"

text \<open>The error that \<open>reply_handle\<close> derives from the flags of a reply.\<close>

definition reply_error :: "u16 \<Rightarrow> dns_err" where
  "reply_error fl =
     (if fl AND 0x0200 \<noteq> 0 then DNS_ERR_TRUNCATED
      else
        let error_code = (fl AND 0x000f) - 1 in
        if error_code > 4 then DNS_ERR_UNKNOWN else error_codes ! unat error_code)"

text \<open>
  The tail of the error branch of \<open>reply_handle\<close>: the next name of a search if there
  is one, otherwise the failure is passed to the user.
\<close>

definition reply_handle_fail :: "nat \<Rightarrow> dns_err \<Rightarrow> evdns \<Rightarrow> error + evdns" where
  "reply_handle_fail i err s =
     (let surface = (\<lambda>s1. bnd (reply_callback i 0 err None s1) (request_finished i)) in
      if search_state (req_head s ! i) \<noteq> None \<and> request_type (req_head s ! i) \<noteq> TYPE_PTR then
        bnd (search_try_next i s) (\<lambda>(r, s1).
          if r = 0 then request_finished i s1 else surface s1)
      else surface s)"

text \<open>\<open>reply_handle\<close> for the request at position \<open>i\<close> of the inflight ring.\<close>

definition reply_handle :: "nat \<Rightarrow> u16 \<Rightarrow> u32 \<Rightarrow> reply option \<Rightarrow> evdns \<Rightarrow> error + evdns" where
  "reply_handle i fl ttl rep s =
     (if i \<ge> length (req_head s) then Inl BadPointer
      else if fl AND 0x020f \<noteq> 0 \<or> (case rep of None \<Rightarrow> True | Some rp \<Rightarrow> \<not> have_answer rp) then
        (let err = reply_error fl in
         if err = DNS_ERR_SERVERFAILED \<or> err = DNS_ERR_NOTIMPL \<or> err = DNS_ERR_REFUSED then
           (if reissue_count (req_head s ! i) < global_max_reissues s then
              bnd (with_ns (ns (req_head s ! i)) nameserver_failed s) (\<lambda>s1.
              bnd (request_reissue i s1) (\<lambda>(r, s2).
                if r = 0 then Inr s2 else reply_handle_fail i err s2))
            else reply_handle_fail i err s)
         else
           bnd (with_ns (ns (req_head s ! i)) nameserver_up s) (reply_handle_fail i err))
      else
        bnd (reply_callback i ttl DNS_ERR_NONE rep s) (\<lambda>s1.
        bnd (with_ns (ns (req_head s1 ! i)) nameserver_up s1) (request_finished i)))"

text \<open>
  \<open>evdns_request_timeout_callback\<close> for the request at position \<open>i\<close> of the inflight
  ring.
\<close>

definition evdns_request_timeout_callback :: "nat \<Rightarrow> evdns \<Rightarrow> error + evdns" where
  "evdns_request_timeout_callback i s =
     (if i \<ge> length (req_head s) then Inl BadPointer
      else
        case ns (req_head s ! i) of
          None \<Rightarrow> Inl NullDeref
        | Some p \<Rightarrow>
            (case find_ns p s of
               None \<Rightarrow> Inl BadPointer
             | Some srv \<Rightarrow>
                 let s1 = upd_ns p (\<lambda>n. n\<lparr>timedout := timedout n + 1\<rparr>) s in
                 bnd (if timedout srv + 1 > global_max_nameserver_timeout s1 then
                        nameserver_failed p (upd_ns p (\<lambda>n. n\<lparr>timedout := 0\<rparr>) s1)
                      else Inr s1) (\<lambda>s2.
                   let s3 = upd_req i (\<lambda>r. r\<lparr>timeout_event := False\<rparr>) s2 in
                   if tx_count (req_head s3 ! i) \<ge> global_max_retransmits s3 then
                     bnd (reply_callback i 0 DNS_ERR_TIMEOUT None s3) (request_finished i)
                   else
                     bnd (evdns_request_transmit i s3) (\<lambda>(r, s4). Inr s4))))"

definition nameserver_send_probe :: "nat \<Rightarrow> evdns \<Rightarrow> error + evdns" where
  "nameserver_send_probe p s =
     bnd (request_new TYPE_A ''www.google.com'' DNS_QUERY_NO_SEARCH
            nameserver_probe_callback_fn p s) (\<lambda>(nr, s1).
       case nr of
         None \<Rightarrow> Inr s1
       | Some req \<Rightarrow>
           bnd (transaction_id_pick s1) (\<lambda>(t, s2).
             request_submit ((request_trans_id_set req t)\<lparr>ns := Some p\<rparr>) s2))"

definition nameserver_prod_callback :: "nat \<Rightarrow> evdns \<Rightarrow> error + evdns" where
  "nameserver_prod_callback p s = nameserver_send_probe p s"

section \<open>Suspending and resuming\<close>

text \<open>
  One turn of the second loop of \<open>evdns_clear_nameservers_and_suspend\<close>: the request is
  reset, put at the tail of the waiting ring, and the head of that ring is moved one step
  back (\<open>req_waiting_head = req_waiting_head->prev\<close>).
\<close>

definition head_prev :: "'a list \<Rightarrow> 'a list" where
  "head_prev ring = (if ring = [] then [] else last ring # butlast ring)"

definition suspend_request :: "request \<Rightarrow> request" where
  "suspend_request req =
     req\<lparr>tx_count := 0, reissue_count := 0, ns := None, timeout_event := False,
         trans_id := 0, transmit_me := False\<rparr>"

definition suspend_one :: "evdns \<Rightarrow> request \<Rightarrow> evdns" where
  "suspend_one s req =
     s\<lparr>global_requests_waiting := global_requests_waiting s + 1,
       req_waiting_head := head_prev (evdns_request_insert (suspend_request req) (req_waiting_head s))\<rparr>"

definition evdns_clear_nameservers_and_suspend :: "evdns \<Rightarrow> int \<times> evdns" where
  "evdns_clear_nameservers_and_suspend s =
     (if server_head s = [] then (0, s)
      else
        let s1 = s\<lparr>server_head := [], global_good_nameservers := 0\<rparr>;
            s2 = foldl suspend_one s1 (req_head s1) in
        (0, s2\<lparr>req_head := [], global_requests_inflight := 0\<rparr>))"

definition evdns_resume :: "evdns \<Rightarrow> error + (int \<times> evdns)" where
  "evdns_resume s = bnd (evdns_requests_pump_waiting_queue s) (\<lambda>s1. Inr (0, s1))"

definition evdns_count_nameservers :: "evdns \<Rightarrow> int" where
  "evdns_count_nameservers s = int (length (server_head s))"

text \<open>
  \<open>evdns_nameserver_add\<close>: the outcome of setting up the socket comes from the
  environment (success when none is listed). The new server is linked in behind the head.
\<close>

definition evdns_nameserver_add :: "u32 \<Rightarrow> evdns \<Rightarrow> int \<times> evdns" where
  "evdns_nameserver_add addr s =
     (if \<exists>n \<in> set (server_head s). address n = addr then (3, s)
      else
        let r = (case sockets s of [] \<Rightarrow> SockOk | x # xs \<Rightarrow> x);
            s1 = s\<lparr>sockets := tl (sockets s)\<rparr> in
        case r of
          SocketFails \<Rightarrow> (1, s1)
        | ConnectFails \<Rightarrow> (2, s1)
        | EventAddFails \<Rightarrow> (2, s1)
        | SockOk \<Rightarrow>
            let n = \<lparr>ns_ptr = next_ptr s1, address = addr, failed_times = 0, timedout = 0,
                     probe_timer = None, state = True, choaked = False, write_waiting = False\<rparr> in
            (0, s1\<lparr>server_head := (case server_head s1 of [] \<Rightarrow> [n] | h # t \<Rightarrow> h # n # t),
                   global_good_nameservers := global_good_nameservers s1 + 1,
                   next_ptr := Suc (next_ptr s1)\<rparr>))"

text \<open>
  \<open>evdns_nameserver_ip_add\<close>; \<open>aton\<close> stands for the C library's \<open>inet_aton\<close>.
\<close>

definition evdns_nameserver_ip_add :: "(string \<Rightarrow> u32 option) \<Rightarrow> string \<Rightarrow> evdns \<Rightarrow> int \<times> evdns" where
  "evdns_nameserver_ip_add aton ip_as_string s =
     (case aton ip_as_string of
        None \<Rightarrow> (4, s)
      | Some a \<Rightarrow> evdns_nameserver_add a s)"

section \<open>Parsing replies\<close>

text \<open>The macros \<open>GET16\<close> and \<open>GET32\<close>: \<open>None\<close> when they return -1.\<close>

definition GET16 :: "u8 list \<Rightarrow> nat \<Rightarrow> (u16 \<times> nat) option" where
  "GET16 packet j =
     (if j + 2 > length packet then None
      else Some (ucast (packet ! j) * 256 + ucast (packet ! (j + 1)), j + 2))"

definition GET32 :: "u8 list \<Rightarrow> nat \<Rightarrow> (u32 \<times> nat) option" where
  "GET32 packet j =
     (if j + 4 > length packet then None
      else Some (ucast (packet ! j) * 16777216 + ucast (packet ! (j + 1)) * 65536
                 + ucast (packet ! (j + 2)) * 256 + ucast (packet ! (j + 3)), j + 4))"

text \<open>The six header fields; the last two are read and dropped.\<close>

definition reply_header :: "u8 list \<Rightarrow> (u16 \<times> u16 \<times> u16 \<times> u16 \<times> nat) option" where
  "reply_header packet =
     Option.bind (GET16 packet 0) (\<lambda>(tid, j1).
     Option.bind (GET16 packet j1) (\<lambda>(fl, j2).
     Option.bind (GET16 packet j2) (\<lambda>(questions, j3).
     Option.bind (GET16 packet j3) (\<lambda>(answers, j4).
     Option.bind (GET16 packet j4) (\<lambda>(authority, j5).
     Option.bind (GET16 packet j5) (\<lambda>(additional, j6).
       Some (tid, fl, questions, answers, j6)))))))"

text \<open>
  The two loops of \<open>reply_parse\<close>. The outer \<open>None\<close> is \<open>name_parse\<close> not returning,
  \<open>Some None\<close> is \<open>return -1\<close>.
\<close>

primrec skip_questions :: "nat \<Rightarrow> u8 list \<Rightarrow> nat \<Rightarrow> nat option option" where
  "skip_questions 0 packet j = Some (Some j)"
| "skip_questions (Suc n) packet j =
     (case name_parse packet j 256 of
        None \<Rightarrow> None
      | Some None \<Rightarrow> Some None
      | Some (Some (j1, nm)) \<Rightarrow>
          if j1 + 4 \<ge> length packet then Some None else skip_questions n packet (j1 + 4))"

definition read_addr :: "u8 list \<Rightarrow> nat \<Rightarrow> u32" where
  "read_addr packet j =
     ucast (packet ! j) * 16777216 + ucast (packet ! (j + 1)) * 65536
       + ucast (packet ! (j + 2)) * 256 + ucast (packet ! (j + 3))"

primrec answers_loop ::
  "nat \<Rightarrow> nat \<Rightarrow> u8 list \<Rightarrow> nat \<Rightarrow> reply \<Rightarrow> u32 \<Rightarrow> (reply \<times> u32) option option" where
  "answers_loop 0 rt packet j rep ttl_r = Some (Some (rep, ttl_r))"
| "answers_loop (Suc n) rt packet j rep ttl_r =
     (case name_parse packet j 256 of
        None \<Rightarrow> None
      | Some None \<Rightarrow> Some None
      | Some (Some (j1, nm)) \<Rightarrow>
     (case GET16 packet j1 of None \<Rightarrow> Some None | Some (ty, j2) \<Rightarrow>
     (case GET16 packet j2 of None \<Rightarrow> Some None | Some (cls, j3) \<Rightarrow>
     (case GET32 packet j3 of None \<Rightarrow> Some None | Some (ttl, j4) \<Rightarrow>
     (case GET16 packet j4 of None \<Rightarrow> Some None | Some (datalength, j5) \<Rightarrow>
        if unat ty = TYPE_A \<and> unat cls = CLASS_INET then
          (if rt \<noteq> TYPE_A then answers_loop n rt packet (j5 + unat datalength) rep ttl_r
           else
             let addrcount = unat datalength div 4;
                 addrtocopy = min (MAX_ADDRS - length (addresses rep)) addrcount;
                 ttl_r1 = min ttl_r ttl in
             if j5 + 4 * addrtocopy > length packet then Some None
             else
               let rep1 = rep\<lparr>addresses := addresses rep
                                 @ map (\<lambda>k. read_addr packet (j5 + 4 * k)) [0..<addrtocopy],
                               have_answer := True\<rparr> in
               if length (addresses rep1) = MAX_ADDRS then Some (Some (rep1, ttl_r1))
               else answers_loop n rt packet (j5 + 4 * addrtocopy) rep1 ttl_r1)
        else if unat ty = TYPE_PTR \<and> unat cls = CLASS_INET then
          (if rt \<noteq> TYPE_PTR then answers_loop n rt packet (j5 + unat datalength) rep ttl_r
           else
             (case name_parse packet j5 HOST_NAME_MAX of
                None \<Rightarrow> None
              | Some None \<Rightarrow> Some None
              | Some (Some (j6, nm1)) \<Rightarrow> Some (Some (rep\<lparr>ptr_name := nm1, have_answer := True\<rparr>, ttl_r))))
        else answers_loop n rt packet (j5 + unat datalength) rep ttl_r)))))"

text \<open>
  \<open>reply_parse\<close>: the return code and the new state; the outer \<open>None\<close> is the parser
  not returning.
\<close>

definition reply_parse :: "u8 list \<Rightarrow> evdns \<Rightarrow> (error + (int \<times> evdns)) option" where
  "reply_parse packet s =
     (case reply_header packet of
        None \<Rightarrow> Some (Inr (- 1, s))
      | Some (tid, fl, questions, answers, j) \<Rightarrow>
          (case request_find_from_trans_id tid s of
             None \<Rightarrow> Some (Inr (- 1, s))
           | Some i \<Rightarrow>
               if fl AND 0x8000 = 0 then Some (Inr (- 1, s))
               else if fl AND 0x020f \<noteq> 0 then
                 Some (bnd (reply_handle i fl 0 None s) (\<lambda>s1. Inr (- 1, s1)))
               else
                 (case skip_questions (unat questions) packet j of
                    None \<Rightarrow> None
                  | Some None \<Rightarrow> Some (Inr (- 1, s))
                  | Some (Some j1) \<Rightarrow>
                      (case answers_loop (unat answers) (request_type (req_head s ! i)) packet j1
                              \<lparr>reply_type = request_type (req_head s ! i), have_answer = False,
                               addresses = [], ptr_name = []\<rparr> 0xffffffff of
                         None \<Rightarrow> None
                       | Some None \<Rightarrow> Some (Inr (- 1, s))
                       | Some (Some (rep, ttl_r)) \<Rightarrow>
                           Some (bnd (reply_handle i fl ttl_r (Some rep) s) (\<lambda>s1. Inr (0, s1)))))))"

text \<open>What a call of \<open>recv\<close> on the socket of a nameserver yields.\<close>

datatype recv_result = RecvAgain | RecvError | RecvData "u8 list"

text \<open>
  \<open>nameserver_read\<close> for the nameserver struct at \<open>p\<close>: datagrams are read into a
  buffer of 1500 bytes until \<open>recv\<close> fails. The list holds what the successive calls of
  \<open>recv\<close> yield; when it is used up the socket has nothing more to give. The outer
  \<open>None\<close> is \<open>reply_parse\<close> not returning.
\<close>

primrec nameserver_read :: "nat \<Rightarrow> recv_result list \<Rightarrow> evdns \<Rightarrow> (error + evdns) option" where
  "nameserver_read p [] s = Some (Inr s)"
| "nameserver_read p (r # rs) s =
     (case r of
        RecvAgain \<Rightarrow> Some (Inr s)
      | RecvError \<Rightarrow> Some (nameserver_failed p s)
      | RecvData datagram \<Rightarrow>
          (case reply_parse (take 1500 datagram) (upd_ns p (\<lambda>n. n\<lparr>timedout := 0\<rparr>) s) of
             None \<Rightarrow> None
           | Some (Inl e) \<Rightarrow> Some (Inl e)
           | Some (Inr (rc, s1)) \<Rightarrow> nameserver_read p rs s1))"

section \<open>Parsing resolv.conf\<close>

text \<open>\<open>strtok\<close> with the delimiters space and tab: the runs of other characters.\<close>

fun tokens_loop :: "string \<Rightarrow> string \<Rightarrow> string list" where
  "tokens_loop cur [] = (if cur = [] then [] else [cur])"
| "tokens_loop cur (c # cs) =
     (if c = CHR '' '' \<or> c = CHR 0x09 then
        (if cur = [] then tokens_loop [] cs else cur # tokens_loop [] cs)
      else tokens_loop (cur @ [c]) cs)"

definition is_digit :: "char \<Rightarrow> bool" where
  "is_digit c = ((48::nat) \<le> of_char c \<and> (of_char c :: nat) \<le> 57)"

definition digits_value :: "string \<Rightarrow> int" where
  "digits_value ds = foldl (\<lambda>v c. 10 * v + (int (of_char c) - 48)) 0 ds"

text \<open>
  \<open>strtol\<close> yields a \<open>long\<close>, taken to have 64 bits, and stays at the nearest
  bound when the digits say more; \<open>const int r = strtol (...)\<close> keeps the low 32
  bits of it.
\<close>

definition strtol_clamp :: "int \<Rightarrow> int" where
  "strtol_clamp v = max (- (2 ^ 63)) (min v (2 ^ 63 - 1))"

definition int_of_long :: "int \<Rightarrow> int" where
  "int_of_long v = sint (word_of_int v :: 32 word)"

text \<open>
  \<open>strtoint\<close>: \<open>strtol\<close> in base 10 skips white space, reads a sign and digits, and
  leaves \<open>endptr\<close> at the start when it finds no digits; -1 unless \<open>endptr\<close> is at the
  end of the string.
\<close>

definition strtoint :: "string \<Rightarrow> int" where
  "strtoint str =
     (let body = dropWhile (\<lambda>c. c \<in> {CHR 0x0A, CHR 0x0B, CHR 0x0C, CHR 0x0D, CHR '' '', CHR 0x09}) str;
          neg = (body \<noteq> [] \<and> hd body = CHR ''-'');
          ds = (if body \<noteq> [] \<and> (hd body = CHR ''-'' \<or> hd body = CHR ''+'') then tl body else body);
          digs = takeWhile is_digit ds in
      if digs = [] then (if str = [] then 0 else - 1)
      else if dropWhile is_digit ds \<noteq> [] then - 1
      else int_of_long (strtol_clamp (if neg then - digits_value digs else digits_value digs)))"

primrec parse_options :: "string list \<Rightarrow> u32 \<Rightarrow> evdns \<Rightarrow> error + evdns" where
  "parse_options [] fl s = Inr s"
| "parse_options (opt # opts) fl s =
     (if take 6 opt = ''ndots:'' then
        (let n = strtoint (drop 6 opt) in
         if n = - 1 then parse_options opts fl s
         else if fl AND DNS_OPTION_SEARCH = 0 then parse_options opts fl s
         else
           (case ensure_search_state s of (p, s1) \<Rightarrow>
              bnd (upd_search p (\<lambda>st. st\<lparr>ndots := n\<rparr>) s1) (parse_options opts fl)))
      else if take 8 opt = ''timeout:'' then
        (let n = strtoint (drop 8 opt) in
         if n = - 1 then parse_options opts fl s
         else if fl AND DNS_OPTION_MISC = 0 then parse_options opts fl s
         else parse_options opts fl (s\<lparr>global_timeout := n\<rparr>))
      else if take 9 opt = ''attempts:'' then
        (let n = strtoint (drop 9 opt) in
         if n = - 1 then parse_options opts fl s
         else if fl AND DNS_OPTION_MISC = 0 then parse_options opts fl s
         else parse_options opts fl (s\<lparr>global_max_retransmits := (if n > 255 then 255 else n)\<rparr>))
      else parse_options opts fl s)"

primrec add_domains :: "string list \<Rightarrow> evdns \<Rightarrow> error + evdns" where
  "add_domains [] s = Inr s"
| "add_domains (d # ds) s = bnd (search_postfix_add d s) (add_domains ds)"

definition resolv_conf_parse_line ::
  "(string \<Rightarrow> u32 option) \<Rightarrow> string \<Rightarrow> u32 \<Rightarrow> evdns \<Rightarrow> error + evdns" where
  "resolv_conf_parse_line aton start fl s =
     (case tokens_loop [] start of
        [] \<Rightarrow> Inr s
      | first_token # rest \<Rightarrow>
          if first_token = ''nameserver'' then
            (case rest of
               [] \<Rightarrow> Inl NullDeref
             | a1 # rest1 \<Rightarrow>
                 (case aton a1 of
                    None \<Rightarrow> Inr s
                  | Some a \<Rightarrow> Inr (snd (evdns_nameserver_add a s))))
          else if first_token = ''domain'' \<and> fl AND DNS_OPTION_SEARCH \<noteq> 0 then
            (case rest of
               [] \<Rightarrow> Inr s
             | d1 # rest1 \<Rightarrow> bnd (search_postfix_clear s) (search_postfix_add d1))
          else if first_token = ''search'' \<and> fl AND DNS_OPTION_SEARCH \<noteq> 0 then
            bnd (search_postfix_clear s) (\<lambda>s1. bnd (add_domains rest s1) search_reverse)
          else if first_token = ''options'' then parse_options rest fl s
          else Inr s)"

definition evdns_resolv_set_defaults ::
  "(string \<Rightarrow> u32 option) \<Rightarrow> string option \<Rightarrow> u32 \<Rightarrow> evdns \<Rightarrow> error + evdns" where
  "evdns_resolv_set_defaults aton hostname fl s =
     bnd (if fl AND DNS_OPTION_SEARCH \<noteq> 0 then search_set_from_hostname hostname s else Inr s)
       (\<lambda>s1. Inr (if fl AND DNS_OPTION_NAMESERVERS \<noteq> 0
                   then snd (evdns_nameserver_ip_add aton ''127.0.0.1'' s1) else s1))"

text \<open>
  What the file system gives \<open>evdns_resolv_conf_parse\<close>: \<open>open\<close> fails, \<open>fstat\<close>
  fails, or the file has a size, \<open>malloc\<close> succeeds or not, and \<open>read\<close> yields the
  bytes or comes up short.
\<close>

datatype conf_file = OpenFails | StatFails | Opened nat bool "string option"

fun lines_loop :: "string \<Rightarrow> string \<Rightarrow> string list" where
  "lines_loop cur [] = [cur]"
| "lines_loop cur (c # cs) =
     (if c = CHR 0x0A then cur # lines_loop [] cs else lines_loop (cur @ [c]) cs)"

primrec parse_lines ::
  "(string \<Rightarrow> u32 option) \<Rightarrow> string list \<Rightarrow> u32 \<Rightarrow> evdns \<Rightarrow> error + evdns" where
  "parse_lines aton [] fl s = Inr s"
| "parse_lines aton (l # ls) fl s = bnd (resolv_conf_parse_line aton l fl s) (parse_lines aton ls fl)"

definition evdns_resolv_conf_parse ::
  "(string \<Rightarrow> u32 option) \<Rightarrow> string option \<Rightarrow> u32 \<Rightarrow> conf_file \<Rightarrow> evdns
     \<Rightarrow> error + (int \<times> evdns)" where
  "evdns_resolv_conf_parse aton hostname fl file s =
     (case file of
        OpenFails \<Rightarrow> bnd (evdns_resolv_set_defaults aton hostname fl s) (\<lambda>s1. Inr (0, s1))
      | StatFails \<Rightarrow> Inr (2, s)
      | Opened st_size malloc_ok rd \<Rightarrow>
          if st_size = 0 then
            bnd (evdns_resolv_set_defaults aton hostname fl s) (\<lambda>s1. Inr (0, s1))
          else if st_size > 65535 then Inr (3, s)
          else if \<not> malloc_ok then Inr (4, s)
          else
            (case rd of
               None \<Rightarrow> Inr (5, s)
             | Some resolv \<Rightarrow>
                 bnd (parse_lines aton (lines_loop [] (takeWhile (\<lambda>c. c \<noteq> CHR 0x00) resolv)) fl s)
                   (\<lambda>s1.
                     let s2 = (if server_head s1 = [] \<and> fl AND DNS_OPTION_NAMESERVERS \<noteq> 0
                               then snd (evdns_nameserver_ip_add aton ''127.0.0.1'' s1) else s1) in
                     bnd (if fl AND DNS_OPTION_SEARCH \<noteq> 0 then
                            (case global_search_state s2 of
                               None \<Rightarrow> search_set_from_hostname hostname s2
                             | Some p \<Rightarrow>
                                 (case search_states s2 p of
                                    None \<Rightarrow> Inl BadPointer
                                  | Some st \<Rightarrow>
                                      if num_domains st = 0 then search_set_from_hostname hostname s2
                                      else Inr s2))
                          else Inr s2) (\<lambda>s3. Inr (0, s3)))))"

text \<open>The state of the module when the program starts.\<close>

definition initial :: evdns where
  "initial =
     \<lparr>req_head = [], req_waiting_head = [], server_head = [], global_good_nameservers = 0,
      global_requests_inflight = 0, global_requests_waiting = 0,
      global_max_requests_inflight = 64, global_timeout = 5, global_max_reissues = 1,
      global_max_retransmits = 3, global_max_nameserver_timeout = 3,
      global_search_state = None, search_states = Map.empty, entropy = [], sends = [],
      sockets = [], sent = [], callbacks = [], next_ptr = 1\<rparr>"

section \<open>Notions used in the statements and proofs\<close>

text \<open>The struct that a nameserver pointer leads to is marked as down.\<close>

definition ns_down :: "nat \<Rightarrow> evdns \<Rightarrow> bool" where
  "ns_down p s = (case find_ns p s of None \<Rightarrow> False | Some n \<Rightarrow> \<not> state n)"

text \<open>
  Two more blankings of the state, as \<open>mask_tx\<close>: one that also forgets the id source
  and the next fresh address, and one that forgets only the inflight ring, the
  nameservers and their count.
\<close>

definition mask_io :: "evdns \<Rightarrow> evdns" where
  "mask_io s = (mask_tx s)\<lparr>entropy := [], next_ptr := 0\<rparr>"

definition mask_ns :: "evdns \<Rightarrow> evdns" where
  "mask_ns s = s\<lparr>req_head := [], server_head := [], global_good_nameservers := 0\<rparr>"

text \<open>A request without its nameserver pointer.\<close>

definition drop_ns :: "request \<Rightarrow> request" where
  "drop_ns r = r\<lparr>ns := None\<rparr>"

text \<open>A request without the marks that transmitting leaves on it.\<close>

definition core :: "request \<Rightarrow> request" where
  "core r = r\<lparr>ns := None, tx_count := 0, transmit_me := False, timeout_event := False\<rparr>"

text \<open>
  What the engine keeps of the nameservers while it sends and finishes requests: the
  structs with their timeout counters, seen as a set, and no struct that is down comes
  up again.
\<close>

definition ns_view :: "nameserver list \<Rightarrow> (nat \<times> int) set" where
  "ns_view xs = (\<lambda>n. (ns_ptr n, timedout n)) ` set xs"

definition ns_ups :: "nameserver list \<Rightarrow> nat set" where
  "ns_ups xs = ns_ptr ` {n \<in> set xs. state n}"

definition ns_keep :: "nameserver list \<Rightarrow> nameserver list \<Rightarrow> bool" where
  "ns_keep xs ys \<longleftrightarrow> ns_view ys = ns_view xs \<and> ns_ups ys \<subseteq> ns_ups xs"

section \<open>Scenarios\<close>

text \<open>An \<open>inet_aton\<close> that knows the loopback address (in network byte order).\<close>

definition loopback :: "string \<Rightarrow> u32 option" where
  "loopback str = (if str = ''127.0.0.1'' then Some 0x0100007f else None)"

text \<open>
  One nameserver, then two lookups while the id source yields 5 twice.
\<close>

definition two_lookups_same_id :: "error + evdns" where
  "two_lookups_same_id =
     (case evdns_nameserver_add 0x0100007f (initial\<lparr>entropy := [5, 5]\<rparr>) of (r, s) \<Rightarrow>
      bnd (evdns_resolve_ipv4 ''a'' DNS_QUERY_NO_SEARCH (user_fn 0) 1 s) (\<lambda>(r, s).
      bnd (evdns_resolve_ipv4 ''b'' DNS_QUERY_NO_SEARCH (user_fn 0) 2 s) (\<lambda>(r, s). Inr s)))"

text \<open>
  Lookups \<open>c\<close> and \<open>d\<close> are made before any nameserver is known, so they wait; a
  nameserver is added and lookups \<open>a\<close> and \<open>b\<close> go out at once. The user pointers
  are 3, 4, 1, 2 and the structs get the addresses 1, 2, 4, 5.
\<close>

definition two_inflight_two_waiting :: "error + evdns" where
  "two_inflight_two_waiting =
     bnd (evdns_resolve_ipv4 ''c'' DNS_QUERY_NO_SEARCH (user_fn 0) 3
            (initial\<lparr>entropy := [11, 12, 13, 14, 15, 16, 17, 18]\<rparr>)) (\<lambda>(r, s).
     bnd (evdns_resolve_ipv4 ''d'' DNS_QUERY_NO_SEARCH (user_fn 0) 4 s) (\<lambda>(r, s).
     case evdns_nameserver_add 0x0100007f s of (r, s) \<Rightarrow>
     bnd (evdns_resolve_ipv4 ''a'' DNS_QUERY_NO_SEARCH (user_fn 0) 1 s) (\<lambda>(r, s).
     bnd (evdns_resolve_ipv4 ''b'' DNS_QUERY_NO_SEARCH (user_fn 0) 2 s) (\<lambda>(r, s). Inr s))))"

text \<open>The same, then suspended.\<close>

definition suspended :: "error + evdns" where
  "suspended =
     bnd two_inflight_two_waiting (\<lambda>s. Inr (snd (evdns_clear_nameservers_and_suspend s)))"

text \<open>The same, then a new nameserver is added and the resolver resumed.\<close>

definition resumed :: "error + evdns" where
  "resumed =
     bnd suspended (\<lambda>s.
       bnd (evdns_resume (snd (evdns_nameserver_add 0x08080808 s))) (\<lambda>(r, s1). Inr s1))"

text \<open>
  The inflight list is full: 64 lookups of \<open>a\<close> have been sent to the only
  nameserver, which has since been marked as failed and waits for its probe.
\<close>

definition crowded :: evdns where
  "crowded =
     initial\<lparr>server_head := [\<lparr>ns_ptr = 1, address = 0x0100007f, failed_times = 1, timedout = 0,
                 probe_timer = Some 10, state = False, choaked = False, write_waiting = False\<rparr>],
       req_head := map (\<lambda>k. \<lparr>rid = k + 2,
                 request = bytes16 (of_nat k + 1) @ [1, 0, 0, 1, 0, 0, 0, 0, 0, 0, 1, 0x61, 0, 0, 1, 0, 1],
                 reissue_count = 0, tx_count = 1, request_type = TYPE_A, user_pointer = k,
                 user_callback = user_fn 0, ns = Some 1, search_index = 0, search_state = None,
                 search_origname = None, search_flags = 1, timeout_event = True,
                 trans_id = of_nat k + 1, transmit_me = False\<rparr>) [0..<64],
       global_requests_inflight := 64, entropy := [1000], next_ptr := 66\<rparr>"

text \<open>The probe timer of that nameserver fires.\<close>

definition crowded_probed :: "error + evdns" where
  "crowded_probed = nameserver_prod_callback 1 crowded"

text \<open>A step of a scenario went through.\<close>

definition succeeds :: "error + 'a \<Rightarrow> bool" where
  "succeeds m = (case m of Inl e \<Rightarrow> False | Inr x \<Rightarrow> True)"

text \<open>
  The socket of the nameserver at \<open>p\<close> becomes readable with one datagram; a scenario
  in which the parser does not return counts as failed.
\<close>

definition reply_arrives :: "nat \<Rightarrow> u8 list \<Rightarrow> evdns \<Rightarrow> error + evdns" where
  "reply_arrives p datagram s =
     (case nameserver_read p [RecvData datagram] s of
        None \<Rightarrow> Inl NoReturn
      | Some m \<Rightarrow> m)"

text \<open>A reply with RCODE 2 (server failure) and no records for the given id.\<close>

definition servfail :: "u16 \<Rightarrow> u8 list" where
  "servfail t = bytes16 t @ [0x81, 0x82, 0, 1, 0, 0, 0, 0, 0, 0]"

text \<open>
  Two nameservers (the structs at addresses 1 and 2) and one lookup, which is sent to the
  first under the id 21.
\<close>

definition two_servers_lookup :: "error + evdns" where
  "two_servers_lookup =
     bnd (evdns_resolve_ipv4 ''a'' DNS_QUERY_NO_SEARCH (user_fn 0) 1
       (snd (evdns_nameserver_add 0x08080808 (snd (evdns_nameserver_add 0x0100007f
              (initial\<lparr>entropy := [21, 22]\<rparr>)))))) (\<lambda>(r, s). Inr s)"

text \<open>
  The first nameserver answers that lookup with a server failure, which moves it to the
  second nameserver; the timeout of the lookup fires, which sends it there; and the
  second nameserver answers with a server failure too.
\<close>

definition first_servfail :: "error + evdns" where
  "first_servfail = bnd two_servers_lookup (reply_arrives 1 (servfail 21))"

definition resent_to_second :: "error + evdns" where
  "resent_to_second = bnd first_servfail (evdns_request_timeout_callback 0)"

definition second_servfail :: "error + evdns" where
  "second_servfail = bnd resent_to_second (reply_arrives 2 (servfail 21))"

text \<open>
  Lookup \<open>c\<close> is made before any nameserver is known and waits (its struct is at
  address 1); a nameserver is added (address 2), the search list is set to
  \<open>example.com\<close>, and \<open>www\<close> is looked up with searching.
\<close>

definition searching :: "error + evdns" where
  "searching =
     bnd (evdns_resolve_ipv4 ''c'' DNS_QUERY_NO_SEARCH (user_fn 0) 3
            (initial\<lparr>entropy := [31, 32, 33, 34, 35, 36, 37, 38]\<rparr>)) (\<lambda>(r, s).
     bnd (evdns_search_add ''example.com'' (snd (evdns_nameserver_add 0x0100007f s))) (\<lambda>s.
     bnd (evdns_resolve_ipv4 ''www'' 0 (user_fn 0) 4 s) (\<lambda>(r, s). Inr s)))"

text \<open>
  One nameserver (the struct at address 1) and two lookups, which are sent to it (their
  structs are at addresses 2 and 3).
\<close>

definition two_lookups :: "error + evdns" where
  "two_lookups =
     (case evdns_nameserver_add 0x0100007f (initial\<lparr>entropy := [41, 42]\<rparr>) of (r, s) \<Rightarrow>
      bnd (evdns_resolve_ipv4 ''a'' DNS_QUERY_NO_SEARCH (user_fn 0) 1 s) (\<lambda>(r, s).
      bnd (evdns_resolve_ipv4 ''b'' DNS_QUERY_NO_SEARCH (user_fn 0) 2 s) (\<lambda>(r, s). Inr s)))"


text \<open>What a scenario leaves in a field.\<close>

definition in_final :: "error + evdns \<Rightarrow> (evdns \<Rightarrow> 'a) \<Rightarrow> 'a option" where
  "in_final m f = (case m of Inl e \<Rightarrow> None | Inr s \<Rightarrow> Some (f s))"

section \<open>Properties\<close>

lemma in_final_Some: "in_final m f = Some y \<longleftrightarrow> (\<exists>s. m = Inr s \<and> f s = y)"
  by (cases m) (auto simp: in_final_def)

lemma find_pos_None: "find_pos P xs = None \<longleftrightarrow> (\<forall>x \<in> set xs. \<not> P x)"
  by (induction xs) auto

subsection \<open>What creating and submitting a request leaves alone\<close>

text \<open>
  Creating a request also draws from the id source and takes a fresh address.
\<close>

lemma mask_io_upd [simp]:
  "mask_io (s\<lparr>req_head := a\<rparr>) = mask_io s"
  "mask_io (s\<lparr>server_head := b\<rparr>) = mask_io s"
  "mask_io (s\<lparr>global_good_nameservers := c\<rparr>) = mask_io s"
  "mask_io (s\<lparr>sends := d\<rparr>) = mask_io s"
  "mask_io (s\<lparr>sent := e\<rparr>) = mask_io s"
  "mask_io (s\<lparr>entropy := f\<rparr>) = mask_io s"
  "mask_io (s\<lparr>next_ptr := g\<rparr>) = mask_io s"
  by (simp_all add: mask_io_def mask_tx_def)

lemma mask_io_of_tx: "mask_tx s' = mask_tx s \<Longrightarrow> mask_io s' = mask_io s"
  by (simp add: mask_io_def)

lemma mask_io_fields:
  assumes "mask_io s' = mask_io s"
  shows "req_waiting_head s' = req_waiting_head s"
    and "global_requests_inflight s' = global_requests_inflight s"
    and "global_requests_waiting s' = global_requests_waiting s"
    and "global_max_requests_inflight s' = global_max_requests_inflight s"
    and "callbacks s' = callbacks s"
    and "search_states s' = search_states s"
    and "global_search_state s' = global_search_state s"
    and "global_max_reissues s' = global_max_reissues s"
    and "global_max_retransmits s' = global_max_retransmits s"
    and "global_max_nameserver_timeout s' = global_max_nameserver_timeout s"
    and "global_timeout s' = global_timeout s"
    and "sockets s' = sockets s"
  using assms [THEN arg_cong, of req_waiting_head]
    assms [THEN arg_cong, of global_requests_inflight]
    assms [THEN arg_cong, of global_requests_waiting]
    assms [THEN arg_cong, of global_max_requests_inflight]
    assms [THEN arg_cong, of callbacks]
    assms [THEN arg_cong, of search_states]
    assms [THEN arg_cong, of global_search_state]
    assms [THEN arg_cong, of global_max_reissues]
    assms [THEN arg_cong, of global_max_retransmits]
    assms [THEN arg_cong, of global_max_nameserver_timeout]
    assms [THEN arg_cong, of global_timeout]
    assms [THEN arg_cong, of sockets]
  by (simp_all add: mask_io_def mask_tx_def)

lemma transaction_id_pick_io: "transaction_id_pick s = Inr (t, s') \<Longrightarrow> mask_io s' = mask_io s"
  by (auto simp: transaction_id_pick_def split: option.splits)

lemma nameserver_pick_io: "nameserver_pick s = Inr (q, s') \<Longrightarrow> mask_io s' = mask_io s"
  by (rule mask_io_of_tx [OF nameserver_pick_mask])

lemma request_new_Inr:
  "request_new ty nm fl cb arg s = Inr (nr, s') \<longleftrightarrow>
     (\<exists>t s1. (if global_requests_inflight s < global_max_requests_inflight s
               then transaction_id_pick s else Inr (0xffff, s)) = Inr (t, s1)
        \<and> (case evdns_request_data_build nm t (of_nat ty) (of_nat CLASS_INET)
                   (evdns_request_len (length nm)) of
              Inl e \<Rightarrow> nr = None \<and> s' = s1
            | Inr pkt \<Rightarrow>
                (\<exists>q s2. (if global_requests_inflight s < global_max_requests_inflight s
                          then nameserver_pick s1 else Inr (None, s1)) = Inr (q, s2)
                   \<and> nr = Some \<lparr>rid = next_ptr s2, request = pkt, reissue_count = 0, tx_count = 0,
                         request_type = ty, user_pointer = arg, user_callback = cb, ns = q,
                         search_index = 0, search_state = None, search_origname = None,
                         search_flags = 0, timeout_event = False, trans_id = t,
                         transmit_me = False\<rparr>
                   \<and> s' = s2\<lparr>next_ptr := Suc (next_ptr s2)\<rparr>)))"
proof (cases "if global_requests_inflight s < global_max_requests_inflight s
               then transaction_id_pick s else Inr (0xffff, s)")
  case (Inl e)
  then show ?thesis by (simp add: request_new_def Let_def)
next
  case (Inr ts)
  obtain t s1 where ts: "ts = (t, s1)" by (cases ts)
  show ?thesis
  proof (cases "evdns_request_data_build nm t (of_nat ty) (of_nat CLASS_INET)
                   (evdns_request_len (length nm))")
    case (Inl e)
    with Inr ts show ?thesis by (auto simp: request_new_def Let_def)
  next
    case pkt: (Inr pkt)
    show ?thesis
    proof (cases "if global_requests_inflight s < global_max_requests_inflight s
                          then nameserver_pick s1 else Inr (None, s1)")
      case (Inl e)
      with Inr ts pkt show ?thesis by (simp add: request_new_def Let_def)
    next
      case q: (Inr qs)
      obtain q s2 where qs: "qs = (q, s2)" by (cases qs)
      from Inr ts pkt q qs show ?thesis by (auto simp: request_new_def Let_def)
    qed
  qed
qed

lemma request_new_unfold:
  assumes "request_new ty nm fl cb arg s = Inr (Some req, s')"
  obtains t s1 pkt q s2 where
    "(if global_requests_inflight s < global_max_requests_inflight s
      then transaction_id_pick s else Inr (0xffff, s)) = Inr (t, s1)"
    and "evdns_request_data_build nm t (of_nat ty) (of_nat CLASS_INET)
           (evdns_request_len (length nm)) = Inr pkt"
    and "(if global_requests_inflight s < global_max_requests_inflight s
          then nameserver_pick s1 else Inr (None, s1)) = Inr (q, s2)"
    and "req = \<lparr>rid = next_ptr s2, request = pkt, reissue_count = 0, tx_count = 0,
                 request_type = ty, user_pointer = arg, user_callback = cb, ns = q,
                 search_index = 0, search_state = None, search_origname = None,
                 search_flags = 0, timeout_event = False, trans_id = t,
                 transmit_me = False\<rparr>"
    and "s' = s2\<lparr>next_ptr := Suc (next_ptr s2)\<rparr>"
proof -
  from assms obtain t s1 where
    a: "(if global_requests_inflight s < global_max_requests_inflight s
         then transaction_id_pick s else Inr (0xffff, s)) = Inr (t, s1)"
    and b: "(case evdns_request_data_build nm t (of_nat ty) (of_nat CLASS_INET)
                   (evdns_request_len (length nm)) of
              Inl e \<Rightarrow> Some req = None \<and> s' = s1
            | Inr pkt \<Rightarrow>
                (\<exists>q s2. (if global_requests_inflight s < global_max_requests_inflight s
                          then nameserver_pick s1 else Inr (None, s1)) = Inr (q, s2)
                   \<and> Some req = Some \<lparr>rid = next_ptr s2, request = pkt, reissue_count = 0, tx_count = 0,
                         request_type = ty, user_pointer = arg, user_callback = cb, ns = q,
                         search_index = 0, search_state = None, search_origname = None,
                         search_flags = 0, timeout_event = False, trans_id = t,
                         transmit_me = False\<rparr>
                   \<and> s' = s2\<lparr>next_ptr := Suc (next_ptr s2)\<rparr>))"
    unfolding request_new_Inr by blast
  show thesis
  proof (cases "evdns_request_data_build nm t (of_nat ty) (of_nat CLASS_INET)
                   (evdns_request_len (length nm))")
    case (Inl e)
    with b show ?thesis by simp
  next
    case (Inr pkt)
    with b obtain q s2 where
      "(if global_requests_inflight s < global_max_requests_inflight s
          then nameserver_pick s1 else Inr (None, s1)) = Inr (q, s2)"
      "req = \<lparr>rid = next_ptr s2, request = pkt, reissue_count = 0, tx_count = 0,
                         request_type = ty, user_pointer = arg, user_callback = cb, ns = q,
                         search_index = 0, search_state = None, search_origname = None,
                         search_flags = 0, timeout_event = False, trans_id = t,
                         transmit_me = False\<rparr>"
      "s' = s2\<lparr>next_ptr := Suc (next_ptr s2)\<rparr>"
      by auto
    with a Inr that show ?thesis by blast
  qed
qed

lemma request_new_io:
  assumes "request_new ty nm fl cb arg s = Inr (nr, s')"
  shows "mask_io s' = mask_io s"
proof -
  from assms obtain t s1 where
    a: "(if global_requests_inflight s < global_max_requests_inflight s
         then transaction_id_pick s else Inr (0xffff, s)) = Inr (t, s1)"
    and b: "(case evdns_request_data_build nm t (of_nat ty) (of_nat CLASS_INET)
                   (evdns_request_len (length nm)) of
              Inl e \<Rightarrow> nr = None \<and> s' = s1
            | Inr pkt \<Rightarrow>
                (\<exists>q s2. (if global_requests_inflight s < global_max_requests_inflight s
                          then nameserver_pick s1 else Inr (None, s1)) = Inr (q, s2)
                   \<and> nr = Some \<lparr>rid = next_ptr s2, request = pkt, reissue_count = 0, tx_count = 0,
                         request_type = ty, user_pointer = arg, user_callback = cb, ns = q,
                         search_index = 0, search_state = None, search_origname = None,
                         search_flags = 0, timeout_event = False, trans_id = t,
                         transmit_me = False\<rparr>
                   \<and> s' = s2\<lparr>next_ptr := Suc (next_ptr s2)\<rparr>))"
    unfolding request_new_Inr by blast
  from a have 1: "mask_io s1 = mask_io s"
    by (auto split: if_splits dest: transaction_id_pick_io)
  show ?thesis
  proof (cases "evdns_request_data_build nm t (of_nat ty) (of_nat CLASS_INET)
                   (evdns_request_len (length nm))")
    case (Inl e)
    with b 1 show ?thesis by simp
  next
    case (Inr pkt)
    with b obtain q s2 where
      c: "(if global_requests_inflight s < global_max_requests_inflight s
           then nameserver_pick s1 else Inr (None, s1)) = Inr (q, s2)"
      and d: "s' = s2\<lparr>next_ptr := Suc (next_ptr s2)\<rparr>"
      by auto
    from c have "mask_io s2 = mask_io s1"
      by (auto split: if_splits dest: nameserver_pick_io)
    with 1 d show ?thesis by simp
  qed
qed

lemma request_new_ns:
  assumes "request_new ty nm fl cb arg s = Inr (Some req, s')" and "ns req \<noteq> None"
  shows "global_requests_inflight s < global_max_requests_inflight s"
proof -
  from assms(1) obtain q s1 s2 where 
    b: "(if global_requests_inflight s < global_max_requests_inflight s
          then nameserver_pick s1 else Inr (None, s1)) = Inr (q, s2)"
    and c: "ns req = q"
    by (rule request_new_unfold) simp
  with assms(2) show ?thesis by (auto split: if_splits)
qed

lemma request_submit_counts:
  assumes "request_submit req s = Inr s'"
  shows "global_requests_inflight s' =
           (if ns req \<noteq> None then global_requests_inflight s + 1 else global_requests_inflight s)"
    and "global_max_requests_inflight s' = global_max_requests_inflight s"
proof -
  show "global_requests_inflight s' =
           (if ns req \<noteq> None then global_requests_inflight s + 1 else global_requests_inflight s)"
  proof (cases "ns req")
    case None
    with assms show ?thesis by (auto simp: request_submit_def)
  next
    case (Some p)
    with assms obtain r where
      "evdns_request_transmit (length (req_head s))
         (s\<lparr>req_head := req_head s @ [req],
            global_requests_inflight := global_requests_inflight s + 1\<rparr>) = Inr (r, s')"
      by (auto simp: request_submit_def Let_def bnd_eq_Inr evdns_request_insert_def)
    from mask_tx_fields(2) [OF evdns_request_transmit_mask [OF this]] Some
    show ?thesis by simp
  qed
  show "global_max_requests_inflight s' = global_max_requests_inflight s"
  proof (cases "ns req")
    case None
    with assms show ?thesis by (auto simp: request_submit_def)
  next
    case (Some p)
    with assms obtain r where
      "evdns_request_transmit (length (req_head s))
         (s\<lparr>req_head := req_head s @ [req],
            global_requests_inflight := global_requests_inflight s + 1\<rparr>) = Inr (r, s')"
      by (auto simp: request_submit_def Let_def bnd_eq_Inr evdns_request_insert_def)
    from mask_tx_fields(4) [OF evdns_request_transmit_mask [OF this]]
    show ?thesis by simp
  qed
qed


lemma probe_name_encodes:
  "\<exists>pkt. evdns_request_data_build ''www.google.com'' t ty cls
            (evdns_request_len (length ''www.google.com'')) = Inr pkt"
  by (simp add: evdns_request_data_build_def app16_def APPEND16_def bytes16_def
      dnsname_to_labels_def append_label_def evdns_request_len_def)

lemma submit_new_cap:
  assumes new: "request_new ty nm fl cb arg s = Inr (Some req, s1)"
    and same: "global_requests_inflight s2 = global_requests_inflight s1"
              "global_max_requests_inflight s2 = global_max_requests_inflight s1"
    and ns: "ns req' = ns req"
    and sub: "request_submit req' s2 = Inr s3"
    and inv: "global_requests_inflight s \<le> global_max_requests_inflight s"
  shows "global_requests_inflight s3 \<le> global_max_requests_inflight s3"
proof -
  note io = mask_io_fields [OF request_new_io [OF new]]
  note cnt = request_submit_counts [OF sub]
  show ?thesis
  proof (cases "ns req")
    case None
    with cnt ns same io inv show ?thesis by simp
  next
    case (Some p)
    then have "ns req \<noteq> None" by simp
    from request_new_ns [OF new this] cnt ns same io Some show ?thesis by simp
  qed
qed

lemma plain_cap:
  assumes "bnd (request_new ty nm fl cb arg s) (\<lambda>(nr, s1).
              case nr of
                None \<Rightarrow> Inr (1, s1)
              | Some req \<Rightarrow> bnd (request_submit req s1) (\<lambda>s2. Inr (0, s2))) = Inr (r, s')"
    and inv: "global_requests_inflight s \<le> global_max_requests_inflight s"
  shows "global_requests_inflight s' \<le> global_max_requests_inflight s'"
proof -
  from assms(1) obtain nr s1 where
    new: "request_new ty nm fl cb arg s = Inr (nr, s1)"
    and rest: "(case nr of
                None \<Rightarrow> Inr (1, s1)
              | Some req \<Rightarrow> bnd (request_submit req s1) (\<lambda>s2. Inr (0, s2))) = Inr (r, s')"
    by (auto simp: bnd_eq_Inr)
  show ?thesis
  proof (cases nr)
    case None
    with rest have "s' = s1" by simp
    with mask_io_fields [OF request_new_io [OF new]] inv show ?thesis by simp
  next
    case (Some req)
    with rest have sub: "request_submit req s1 = Inr s'"
      by (auto simp: bnd_eq_Inr)
    from new Some have "request_new ty nm fl cb arg s = Inr (Some req, s1)" by simp
    from submit_new_cap [OF this refl refl refl sub inv] show ?thesis .
  qed
qed

lemma upd_search_fields:
  assumes "upd_search p f s = Inr s'"
  shows "global_requests_inflight s' = global_requests_inflight s"
    and "global_max_requests_inflight s' = global_max_requests_inflight s"
  using assms by (auto simp: upd_search_def split: option.splits)

lemma search_request_new_cap:
  assumes run: "search_request_new ty nm fl cb arg s = Inr (r, s')"
    and inv: "global_requests_inflight s \<le> global_max_requests_inflight s"
  shows "global_requests_inflight s' \<le> global_max_requests_inflight s'"
proof -
  let ?plain = "bnd (request_new ty nm fl cb arg s) (\<lambda>(nr, s1).
              case nr of
                None \<Rightarrow> Inr (1, s1)
              | Some req \<Rightarrow> bnd (request_submit req s1) (\<lambda>s2. Inr (0, s2)))"
  from run have ty: "ty = TYPE_A"
    by (auto simp: search_request_new_def split: if_splits)
  consider (plain) "?plain = Inr (r, s')"
    | (search) p st where "fl AND DNS_QUERY_NO_SEARCH = 0" "global_search_state s = Some p"
        "search_states s p = Some st" "num_domains st \<noteq> 0"
    using run ty
    by (auto simp: search_request_new_def Let_def split: if_splits option.splits)
  then show ?thesis
  proof cases
    case plain
    from plain_cap [OF this inv] show ?thesis .
  next
    case search
    with run ty obtain qname idx nr s1 where
      new: "request_new ty qname fl cb arg s = Inr (nr, s1)"
      and rest: "(case nr of
                   None \<Rightarrow> Inr (1, s1)
                 | Some req \<Rightarrow>
                     bnd (upd_search p (\<lambda>st. st\<lparr>refcount := refcount st + 1\<rparr>) s1) (\<lambda>s2.
                     bnd (request_submit
                            (req\<lparr>search_index := idx, search_origname := Some nm,
                                 search_state := Some p, search_flags := fl\<rparr>) s2)
                       (\<lambda>s3. Inr (0, s3)))) = Inr (r, s')"
      by (auto simp: search_request_new_def Let_def bnd_eq_Inr)
    show ?thesis
    proof (cases nr)
      case None
      with rest have "s' = s1" by simp
      with mask_io_fields [OF request_new_io [OF new]] inv show ?thesis by simp
    next
      case (Some req)
      with rest obtain s2 where
        up: "upd_search p (\<lambda>st. st\<lparr>refcount := refcount st + 1\<rparr>) s1 = Inr s2"
        and sub: "request_submit (req\<lparr>search_index := idx, search_origname := Some nm,
                                 search_state := Some p, search_flags := fl\<rparr>) s2 = Inr s'"
        by (auto simp: bnd_eq_Inr)
      from new Some have n: "request_new ty qname fl cb arg s = Inr (Some req, s1)" by simp
      show ?thesis
        by (rule submit_new_cap [OF n upd_search_fields [OF up] _ sub inv]) simp
    qed
  qed
qed

lemma resolve_cap:
  assumes run: "evdns_resolve_ipv4 nm fl cb arg s = Inr (r, s')"
    and inv: "global_requests_inflight s \<le> global_max_requests_inflight s"
  shows "global_requests_inflight s' \<le> global_max_requests_inflight s'"
proof (cases "fl AND DNS_QUERY_NO_SEARCH \<noteq> 0")
  case True
  with run have "bnd (request_new TYPE_A nm fl cb arg s) (\<lambda>(nr, s1).
              case nr of
                None \<Rightarrow> Inr (1, s1)
              | Some req \<Rightarrow> bnd (request_submit req s1) (\<lambda>s2. Inr (0, s2))) = Inr (r, s')"
    by (simp add: evdns_resolve_ipv4_def)
  from plain_cap [OF this inv] show ?thesis .
next
  case False
  with run have "search_request_new TYPE_A nm fl cb arg s = Inr (r, s')"
    by (simp add: evdns_resolve_ipv4_def)
  from search_request_new_cap [OF this inv] show ?thesis .
qed

lemma probe_counts:
  assumes "nameserver_send_probe p s = Inr s'"
  shows "global_requests_inflight s' = global_requests_inflight s + 1
       \<and> global_max_requests_inflight s' = global_max_requests_inflight s"
proof -
  from assms obtain nr s1 where
    new: "request_new TYPE_A ''www.google.com'' DNS_QUERY_NO_SEARCH
            nameserver_probe_callback_fn p s = Inr (nr, s1)"
    and rest: "(case nr of
         None \<Rightarrow> Inr s1
       | Some req \<Rightarrow>
           bnd (transaction_id_pick s1) (\<lambda>(t, s2).
             request_submit ((request_trans_id_set req t)\<lparr>ns := Some p\<rparr>) s2)) = Inr s'"
    by (auto simp: nameserver_send_probe_def bnd_eq_Inr)
  from new probe_name_encodes obtain req where nr: "nr = Some req"
    unfolding request_new_Inr by (cases nr) (auto split: sum.splits)
  with rest obtain t s2 where
    tid: "transaction_id_pick s1 = Inr (t, s2)"
    and sub: "request_submit ((request_trans_id_set req t)\<lparr>ns := Some p\<rparr>) s2 = Inr s'"
    by (auto simp: bnd_eq_Inr)
  note a = mask_io_fields [OF request_new_io [OF new]]
  note b = mask_io_fields [OF transaction_id_pick_io [OF tid]]
  note c = request_submit_counts [OF sub]
  from a b c show ?thesis by simp
qed

lemma transaction_id_pick_frame:
  "transaction_id_pick s = Inr (t, s') \<Longrightarrow> s' = s\<lparr>entropy := entropy s'\<rparr>"
  by (auto simp: transaction_id_pick_def split: option.splits)

lemma pump_one_counts:
  assumes "pump_one req s = Inr s'"
  shows "global_requests_inflight s' = global_requests_inflight s + 1
       \<and> global_max_requests_inflight s' = global_max_requests_inflight s"
proof -
  from assms obtain q s2 t s3 r s5 d where
    pick: "nameserver_pick (s\<lparr>global_requests_waiting := global_requests_waiting s - 1,
        global_requests_inflight := global_requests_inflight s + 1\<rparr>) = Inr (q, s2)"
    and tid: "transaction_id_pick s2 = Inr (t, s3)"
    and tx: "evdns_request_transmit (length (req_head s3))
           (s3\<lparr>req_head := req_head s3 @ [request_trans_id_set (req\<lparr>ns := q\<rparr>) t]\<rparr>) = Inr (r, s5)"
    and txall: "evdns_transmit s5 = Inr (d, s')"
    by (rule pump_one_unfold)
  note m1 = mask_tx_fields [OF nameserver_pick_mask [OF pick]]
  note m2 = transaction_id_pick_frame [OF tid]
  note m3 = mask_tx_fields [OF evdns_request_transmit_mask [OF tx]]
  note m4 = mask_tx_fields [OF evdns_transmit_mask [OF txall]]
  have "global_requests_inflight s' = global_requests_inflight s3"
    using m3(2) m4(2) by simp
  also have "\<dots> = global_requests_inflight s2"
    using m2 [THEN arg_cong, of global_requests_inflight] by simp
  also have "\<dots> = global_requests_inflight s + 1"
    using m1(2) by simp
  finally have a: "global_requests_inflight s' = global_requests_inflight s + 1" .
  have "global_max_requests_inflight s' = global_max_requests_inflight s3"
    using m3(4) m4(4) by simp
  also have "\<dots> = global_max_requests_inflight s2"
    using m2 [THEN arg_cong, of global_max_requests_inflight] by simp
  also have "\<dots> = global_max_requests_inflight s"
    using m1(4) by simp
  finally show ?thesis using a by simp
qed

lemma pump_cap:
  "evdns_requests_pump_waiting_queue s = Inr s' \<Longrightarrow>
   global_requests_inflight s \<le> global_max_requests_inflight s \<Longrightarrow>
   global_requests_inflight s' \<le> global_max_requests_inflight s'
   \<and> global_max_requests_inflight s' = global_max_requests_inflight s"
proof (induction s rule: evdns_requests_pump_waiting_queue.induct)
  case (1 s)
  show ?case
  proof (cases "global_requests_inflight s < global_max_requests_inflight s
         \<and> global_requests_waiting s \<noteq> 0")
    case False
    with "1.prems" show ?thesis
      by (simp add: evdns_requests_pump_waiting_queue.simps [of s])
  next
    case True
    with "1.prems"(1) obtain req rest s1 where
      w: "req_waiting_head s = req # rest"
      and one: "pump_one req (s\<lparr>req_waiting_head := rest\<rparr>) = Inr s1"
      and rest: "evdns_requests_pump_waiting_queue s1 = Inr s'"
      by (auto simp: evdns_requests_pump_waiting_queue.simps [of s]
          split: list.splits sum.splits)
    from pump_one_counts [OF one] True
    have c: "global_requests_inflight s1 \<le> global_max_requests_inflight s1"
      and m: "global_max_requests_inflight s1 = global_max_requests_inflight s"
      by simp_all
    from "1.IH" [OF True w one rest c] m show ?thesis by simp
  qed
qed

lemma head_prev_insert: "head_prev (evdns_request_insert r ring) = r # ring"
  by (simp add: head_prev_def evdns_request_insert_def)

lemma foldl_suspend_one:
  "foldl suspend_one s rs =
     s\<lparr>global_requests_waiting := global_requests_waiting s + int (length rs),
       req_waiting_head := map suspend_request (rev rs) @ req_waiting_head s\<rparr>"
  by (induction rs arbitrary: s) (simp_all add: suspend_one_def head_prev_insert)

subsection \<open>Callbacks, nameserver sets and requests across the engine\<close>

lemma succeedsE: "succeeds m \<Longrightarrow> (\<And>x. m = Inr x \<Longrightarrow> thesis) \<Longrightarrow> thesis"
  by (cases m) (simp_all add: succeeds_def)

lemma flags_error_bits:
  fixes fl :: u16
  assumes "fl AND 0x000f \<in> {2, 4, 5}"
  shows "fl AND 0x020f \<noteq> 0"
proof
  assume z: "fl AND 0x020f = 0"
  have "fl AND 0x000f = (fl AND 0x020f) AND 0x000f"
    by (simp add: and.assoc)
  with z have "fl AND 0x000f = 0" by simp
  with assms show False by simp
qed

lemma reply_error_server:
  fixes fl :: u16
  assumes "fl AND 0x0200 = 0" and "fl AND 0x000f \<in> {2, 4, 5}"
  shows "reply_error fl =
           (if fl AND 0x000f = 2 then DNS_ERR_SERVERFAILED
            else if fl AND 0x000f = 4 then DNS_ERR_NOTIMPL else DNS_ERR_REFUSED)"
  using assms by (auto simp: reply_error_def error_codes_def Let_def)

lemma pump_one_callbacks:
  assumes "pump_one req s = Inr s'"
  shows "callbacks s' = callbacks s"
proof -
  from assms obtain q s2 t s3 r s5 d where
    pick: "nameserver_pick (s\<lparr>global_requests_waiting := global_requests_waiting s - 1,
        global_requests_inflight := global_requests_inflight s + 1\<rparr>) = Inr (q, s2)"
    and tid: "transaction_id_pick s2 = Inr (t, s3)"
    and tx: "evdns_request_transmit (length (req_head s3))
           (s3\<lparr>req_head := req_head s3 @ [request_trans_id_set (req\<lparr>ns := q\<rparr>) t]\<rparr>) = Inr (r, s5)"
    and txall: "evdns_transmit s5 = Inr (d, s')"
    by (rule pump_one_unfold)
  note m1 = mask_io_fields(5) [OF nameserver_pick_io [OF pick]]
  note m2 = mask_io_fields(5) [OF transaction_id_pick_io [OF tid]]
  note m3 = mask_tx_fields(6) [OF evdns_request_transmit_mask [OF tx]]
  note m4 = mask_tx_fields(6) [OF evdns_transmit_mask [OF txall]]
  from m1 m2 m3 m4 show ?thesis by simp
qed

lemma pump_callbacks:
  "evdns_requests_pump_waiting_queue s = Inr s' \<Longrightarrow> callbacks s' = callbacks s"
proof (induction s rule: evdns_requests_pump_waiting_queue.induct)
  case (1 s)
  show ?case
  proof (cases "global_requests_inflight s < global_max_requests_inflight s
         \<and> global_requests_waiting s \<noteq> 0")
    case False
    with "1.prems" show ?thesis
      by (simp add: evdns_requests_pump_waiting_queue.simps [of s])
  next
    case True
    with "1.prems"(1) obtain req rest s1 where
      w: "req_waiting_head s = req # rest"
      and one: "pump_one req (s\<lparr>req_waiting_head := rest\<rparr>) = Inr s1"
      and rest: "evdns_requests_pump_waiting_queue s1 = Inr s'"
      by (auto simp: evdns_requests_pump_waiting_queue.simps [of s]
          split: list.splits sum.splits)
    from "1.IH" [OF True w one rest] pump_one_callbacks [OF one] show ?thesis by simp
  qed
qed

lemma search_state_decref_callbacks:
  "search_state_decref q s = Inr s' \<Longrightarrow> callbacks s' = callbacks s"
  by (auto simp: search_state_decref_def split: option.splits if_splits)

lemma request_finished_callbacks:
  assumes "request_finished i s = Inr s'"
  shows "callbacks s' = callbacks s"
proof -
  from assms obtain s2 where
    a: "search_state_decref (search_state (req_head s ! i))
          (s\<lparr>req_head := take i (req_head s) @ drop (Suc i) (req_head s)\<rparr>) = Inr s2"
    and b: "evdns_requests_pump_waiting_queue
              (s2\<lparr>global_requests_inflight := global_requests_inflight s2 - 1\<rparr>) = Inr s'"
    by (auto simp: request_finished_def search_request_finished_def Let_def bnd_eq_Inr
        split: if_splits)
  from search_state_decref_callbacks [OF a] pump_callbacks [OF b] show ?thesis by simp
qed

lemma reply_handle_fail_surfaces:
  assumes i: "i < length (req_head s)"
    and nosearch: "search_state (req_head s ! i) = None"
    and cb: "user_callback (req_head s ! i) = user_fn f"
    and ty: "request_type (req_head s ! i) = TYPE_A \<or> request_type (req_head s ! i) = TYPE_PTR"
    and run: "reply_handle_fail i err s = Inr s'"
  shows "callbacks s' = callbacks s @
           [\<lparr>cb_fn = f, cb_result = err, cb_type = 0, cb_count = 0, cb_ttl = 0,
             cb_data = NoData, cb_arg = user_pointer (req_head s ! i)\<rparr>]"
proof -
  let ?ev = "\<lparr>cb_fn = f, cb_result = err, cb_type = 0, cb_count = 0, cb_ttl = 0,
             cb_data = NoData, cb_arg = user_pointer (req_head s ! i)\<rparr>"
  from i cb ty have "reply_callback i 0 err None s = Inr (s\<lparr>callbacks := callbacks s @ [?ev]\<rparr>)"
    by (auto simp: reply_callback_def call_user_callback_def Let_def)
  with run nosearch have "request_finished i (s\<lparr>callbacks := callbacks s @ [?ev]\<rparr>) = Inr s'"
    by (simp add: reply_handle_fail_def Let_def)
  from request_finished_callbacks [OF this] show ?thesis by simp
qed

lemma set_drop_take_While: "set (dropWhile P xs) \<union> set (takeWhile P xs) = set xs"
proof -
  have "set (takeWhile P xs) \<union> set (dropWhile P xs) = set (takeWhile P xs @ dropWhile P xs)"
    by (rule set_append [symmetric])
  also have "\<dots> = set xs"
    by (simp only: takeWhile_dropWhile_id)
  finally show ?thesis by (simp only: Un_commute)
qed

lemma nameserver_pick_set:
  assumes "nameserver_pick s = Inr (q, s')"
  shows "set (server_head s') = set (server_head s)"
proof (cases "server_head s")
  case Nil
  with assms show ?thesis by (simp add: nameserver_pick_def)
next
  case (Cons h t)
  show ?thesis
  proof (cases "global_good_nameservers s = 0")
    case True
    with assms Cons have "s' = s\<lparr>server_head := t @ [h]\<rparr>"
      by (simp add: nameserver_pick_def Let_def)
    with Cons show ?thesis by auto
  next
    case False
    with assms Cons obtain picked rest where
      d: "dropWhile (\<lambda>n. \<not> state n) (server_head s) = picked # rest"
      and s': "s' = s\<lparr>server_head := rest @ takeWhile (\<lambda>n. \<not> state n) (server_head s) @ [picked]\<rparr>"
      by (cases "dropWhile (\<lambda>n. \<not> state n) (server_head s)")
         (simp_all add: nameserver_pick_def Let_def)
    have "set (server_head s') = set (picked # rest) \<union> set (takeWhile (\<lambda>n. \<not> state n) (server_head s))"
      unfolding s' by auto
    also have "\<dots> = set (server_head s)"
      unfolding d [symmetric] by (rule set_drop_take_While)
    finally show ?thesis .
  qed
qed

lemma reassign_walk_set:
  "reassign_walk p rs s = Inr (rs', s') \<Longrightarrow> set (server_head s') = set (server_head s)"
proof (induction rs arbitrary: s rs' s')
  case Nil
  then show ?case by simp
next
  case (Cons r rs)
  show ?case
  proof (cases "tx_count r = 0 \<and> ns r = Some p")
    case True
    with Cons.prems obtain q s1 rs1 where
      pick: "nameserver_pick s = Inr (q, s1)"
      and walk: "reassign_walk p rs s1 = Inr (rs1, s')"
      by (auto simp: bnd_eq_Inr)
    from Cons.IH [OF walk] nameserver_pick_set [OF pick] show ?thesis by simp
  next
    case False
    with Cons.prems obtain rs1 where walk: "reassign_walk p rs s = Inr (rs1, s')"
      by (auto simp: bnd_eq_Inr)
    from Cons.IH [OF walk] show ?thesis .
  qed
qed

lemma find_all_down:
  assumes "\<forall>n \<in> set xs. ns_ptr n = p \<longrightarrow> \<not> state n" and "\<exists>n \<in> set xs. ns_ptr n = p"
  shows "\<exists>n. find (\<lambda>n. ns_ptr n = p) xs = Some n \<and> \<not> state n"
  using assms by (induction xs) auto

lemma upd_ns_fields [simp]:
  "req_head (upd_ns p f s) = req_head s"
  "global_good_nameservers (upd_ns p f s) = global_good_nameservers s"
  "server_head (upd_ns p f s) = map (\<lambda>n. if ns_ptr n = p then f n else n) (server_head s)"
  by (simp_all add: upd_ns_def)

lemma nameserver_failed_up:
  assumes "find_ns p s = Some n" and "state n"
  shows "nameserver_failed p s =
     (if global_good_nameservers s - 1 < 0 then Inl AssertFail
      else if global_good_nameservers s - 1 = 0 then
        Inr (upd_ns p (\<lambda>n. n\<lparr>state := False, failed_times := 1,
                 probe_timer := Some (global_nameserver_timeouts ! 0)\<rparr>)
               (s\<lparr>global_good_nameservers := global_good_nameservers s - 1\<rparr>))
      else bnd (reassign_walk p (req_head s)
                 (upd_ns p (\<lambda>n. n\<lparr>state := False, failed_times := 1,
                     probe_timer := Some (global_nameserver_timeouts ! 0)\<rparr>)
                   (s\<lparr>global_good_nameservers := global_good_nameservers s - 1\<rparr>)))
             (\<lambda>(rs, s3). Inr (s3\<lparr>req_head := rs\<rparr>)))"
  using assms by (simp add: nameserver_failed_def Let_def)

lemma upd_all_P:
  assumes "\<And>n. P (f n)"
    and "m \<in> set (map (\<lambda>n. if ns_ptr n = p then f n else n) xs)" and "ns_ptr m = p"
  shows "P m"
  using assms(2,3)
proof (induction xs)
  case Nil
  then show ?case by simp
next
  case (Cons x xs)
  show ?case
  proof (cases "m = (if ns_ptr x = p then f x else x)")
    case True
    with Cons.prems(2) assms(1) show ?thesis by (cases "ns_ptr x = p") auto
  next
    case False
    with Cons.prems have "m \<in> set (map (\<lambda>n. if ns_ptr n = p then f n else n) xs)" by simp
    from Cons.IH [OF this Cons.prems(2)] show ?thesis .
  qed
qed

lemma upd_ex:
  assumes "\<And>n. ns_ptr (f n) = ns_ptr n" and "\<exists>m \<in> set xs. ns_ptr m = p"
  shows "\<exists>m \<in> set (map (\<lambda>n. if ns_ptr n = p then f n else n) xs). ns_ptr m = p"
proof -
  from assms(2) obtain m where m: "m \<in> set xs" "ns_ptr m = p" by blast
  then have "f m \<in> set (map (\<lambda>n. if ns_ptr n = p then f n else n) xs)"
    by (force simp: image_iff)
  moreover have "ns_ptr (f m) = p" using assms(1) m by simp
  ultimately show ?thesis by blast
qed

lemma nameserver_failed_down:
  assumes "nameserver_failed p s = Inr s'"
  shows "ns_down p s'"
proof -
  from assms obtain n where n: "find_ns p s = Some n"
    by (cases "find_ns p s") (simp_all add: nameserver_failed_def)
  show ?thesis
  proof (cases "state n")
    case False
    with assms n show ?thesis by (simp add: nameserver_failed_def ns_down_def)
  next
    case True
    let ?s2 = "upd_ns p (\<lambda>n. n\<lparr>state := False, failed_times := 1,
                 probe_timer := Some (global_nameserver_timeouts ! 0)\<rparr>)
               (s\<lparr>global_good_nameservers := global_good_nameservers s - 1\<rparr>)"
    note run = assms [unfolded nameserver_failed_up [OF n True]]
    have ex: "\<exists>m \<in> set (server_head s). ns_ptr m = p"
    proof (rule ccontr)
      assume "\<not> (\<exists>m \<in> set (server_head s). ns_ptr m = p)"
      then have "find (\<lambda>n. ns_ptr n = p) (server_head s) = None"
        by (simp add: find_None_iff)
      with n show False by (simp add: find_ns_def)
    qed
    have down: "\<forall>m \<in> set (server_head ?s2). ns_ptr m = p \<longrightarrow> \<not> state m"
    proof (intro ballI impI)
      fix m
      assume "m \<in> set (server_head ?s2)" and "ns_ptr m = p"
      then show "\<not> state m"
        unfolding upd_ns_fields by (rule upd_all_P [rotated]) simp
    qed
    from ex have ex1: "\<exists>m \<in> set (server_head
        (s\<lparr>global_good_nameservers := global_good_nameservers s - 1\<rparr>)). ns_ptr m = p"
      by simp
    have ex2: "\<exists>m \<in> set (server_head ?s2). ns_ptr m = p"
      unfolding upd_ns_fields by (rule upd_ex [OF _ ex1]) simp
    have "set (server_head s') = set (server_head ?s2)"
    proof (cases "global_good_nameservers s - 1 = 0")
      case z: True
      with run have "s' = ?s2"
        by (simp split: if_splits)
      then show ?thesis by simp
    next
      case nz: False
      with run have "bnd (reassign_walk p (req_head s) ?s2)
             (\<lambda>(rs, s3). Inr (s3\<lparr>req_head := rs\<rparr>)) = Inr s'"
        by (simp split: if_splits)
      then obtain rs s3 where
        w: "reassign_walk p (req_head s) ?s2 = Inr (rs, s3)" and "s' = s3\<lparr>req_head := rs\<rparr>"
        by (auto simp: bnd_eq_Inr)
      with reassign_walk_set [OF w] show ?thesis by simp
    qed
    with down ex2 have "\<forall>m \<in> set (server_head s'). ns_ptr m = p \<longrightarrow> \<not> state m"
      "\<exists>m \<in> set (server_head s'). ns_ptr m = p"
      by simp_all
    from find_all_down [OF this] show ?thesis
      by (auto simp: ns_down_def find_ns_def)
  qed
qed

lemma reassign_walk_reqs:
  "reassign_walk p rs s = Inr (rs', s') \<Longrightarrow> map drop_ns rs' = map drop_ns rs \<and> req_head s' = req_head s"
proof (induction rs arbitrary: s rs' s')
  case Nil
  then show ?case by simp
next
  case (Cons r rs)
  show ?case
  proof (cases "tx_count r = 0 \<and> ns r = Some p")
    case True
    with Cons.prems obtain q s1 rs1 where
      pick: "nameserver_pick s = Inr (q, s1)"
      and walk: "reassign_walk p rs s1 = Inr (rs1, s')"
      and rs': "rs' = r\<lparr>ns := q\<rparr> # rs1"
      by (auto simp: bnd_eq_Inr)
    from pick have "req_head s1 = req_head s"
      by (auto simp: nameserver_pick_def Let_def split: list.splits if_splits)
    with Cons.IH [OF walk] rs' show ?thesis by (simp add: drop_ns_def)
  next
    case False
    with Cons.prems obtain rs1 where walk: "reassign_walk p rs s = Inr (rs1, s')"
      and rs': "rs' = r # rs1"
      by (auto simp: bnd_eq_Inr)
    from Cons.IH [OF walk] rs' show ?thesis by simp
  qed
qed

lemma nameserver_pick_reqs: "nameserver_pick s = Inr (q, s') \<Longrightarrow> req_head s' = req_head s"
  by (auto simp: nameserver_pick_def Let_def split: list.splits if_splits)

lemma nameserver_failed_reqs:
  assumes "nameserver_failed p s = Inr s'"
  shows "map drop_ns (req_head s') = map drop_ns (req_head s)"
proof -
  from assms obtain n where n: "find_ns p s = Some n"
    by (cases "find_ns p s") (simp_all add: nameserver_failed_def)
  show ?thesis
  proof (cases "state n")
    case False
    with assms n show ?thesis by (simp add: nameserver_failed_def)
  next
    case True
    let ?s2 = "upd_ns p (\<lambda>n. n\<lparr>state := False, failed_times := 1,
                 probe_timer := Some (global_nameserver_timeouts ! 0)\<rparr>)
               (s\<lparr>global_good_nameservers := global_good_nameservers s - 1\<rparr>)"
    note run = assms [unfolded nameserver_failed_up [OF n True]]
    show ?thesis
    proof (cases "global_good_nameservers s - 1 = 0")
      case z: True
      with run have "s' = ?s2"
        by (simp split: if_splits)
      then show ?thesis by simp
    next
      case nz: False
      with run have "bnd (reassign_walk p (req_head s) ?s2)
             (\<lambda>(rs, s3). Inr (s3\<lparr>req_head := rs\<rparr>)) = Inr s'"
        by (simp split: if_splits)
      then obtain rs s3 where
        w: "reassign_walk p (req_head s) ?s2 = Inr (rs, s3)" and "s' = s3\<lparr>req_head := rs\<rparr>"
        by (auto simp: bnd_eq_Inr)
      with reassign_walk_reqs [OF w] show ?thesis by simp
    qed
  qed
qed

lemma drop_ns_nth:
  assumes "map drop_ns xs = map drop_ns ys" and "i < length ys"
  shows "length xs = length ys" and "reissue_count (xs ! i) = reissue_count (ys ! i)"
proof -
  from assms(1) show len: "length xs = length ys"
    using map_eq_imp_length_eq by blast
  from assms(1) have "map drop_ns xs ! i = map drop_ns ys ! i" by simp
  with len assms(2) have "drop_ns (xs ! i) = drop_ns (ys ! i)" by simp
  then have "reissue_count (drop_ns (xs ! i)) = reissue_count (drop_ns (ys ! i))" by simp
  then show "reissue_count (xs ! i) = reissue_count (ys ! i)" by (simp add: drop_ns_def)
qed

lemma upd_req_fields [simp]:
  "callbacks (upd_req i f s) = callbacks s"
  "req_head (upd_req i f s) = (req_head s)[i := f (req_head s ! i)]"
  "server_head (upd_req i f s) = server_head s"
  by (simp_all add: upd_req_def)

lemma reply_handle_server_error:
  fixes fl :: u16
  assumes "i < length (req_head s)" and "fl AND 0x0200 = 0" and "fl AND 0x000f \<in> {2, 4, 5}"
  shows "reply_handle i fl ttl rep s =
     (if reissue_count (req_head s ! i) < global_max_reissues s then
        bnd (with_ns (ns (req_head s ! i)) nameserver_failed s) (\<lambda>s1.
        bnd (request_reissue i s1) (\<lambda>(r, s2).
          if r = 0 then Inr s2 else reply_handle_fail i (reply_error fl) s2))
      else reply_handle_fail i (reply_error fl) s)"
proof -
  from assms(2,3) have "reply_error fl = DNS_ERR_SERVERFAILED \<or> reply_error fl = DNS_ERR_NOTIMPL
      \<or> reply_error fl = DNS_ERR_REFUSED"
    by (simp add: reply_error_server)
  with assms(1) flags_error_bits [OF assms(3)] show ?thesis
    by (simp add: reply_handle_def Let_def)
qed

subsection \<open>The inflight ring across timeouts and retransmissions\<close>

lemma mask_ns_upd [simp]:
  "mask_ns (s\<lparr>req_head := a\<rparr>) = mask_ns s"
  "mask_ns (s\<lparr>server_head := b\<rparr>) = mask_ns s"
  "mask_ns (s\<lparr>global_good_nameservers := c\<rparr>) = mask_ns s"
  "mask_ns (upd_ns p f s) = mask_ns s"
  "mask_ns (upd_req i g s) = mask_ns s"
  by (simp_all add: mask_ns_def upd_ns_def upd_req_def)


lemma nameserver_pick_ns: "nameserver_pick s = Inr (q, s') \<Longrightarrow> mask_ns s' = mask_ns s"
  by (auto simp: nameserver_pick_def Let_def split: list.splits if_splits)

lemma reassign_walk_ns: "reassign_walk p rs s = Inr (rs', s') \<Longrightarrow> mask_ns s' = mask_ns s"
proof (induction rs arbitrary: s rs' s')
  case Nil
  then show ?case by simp
next
  case (Cons r rs)
  show ?case
  proof (cases "tx_count r = 0 \<and> ns r = Some p")
    case True
    with Cons.prems obtain q s1 rs1 where
      pick: "nameserver_pick s = Inr (q, s1)"
      and walk: "reassign_walk p rs s1 = Inr (rs1, s')"
      by (auto simp: bnd_eq_Inr)
    from Cons.IH [OF walk] nameserver_pick_ns [OF pick] show ?thesis by simp
  next
    case False
    with Cons.prems obtain rs1 where walk: "reassign_walk p rs s = Inr (rs1, s')"
      by (auto simp: bnd_eq_Inr)
    from Cons.IH [OF walk] show ?thesis .
  qed
qed

text \<open>What \<open>nameserver_failed\<close> does to a server that is up, in one piece.\<close>

lemma nameserver_failed_cases:
  assumes "nameserver_failed p s = Inr s'"
  obtains (already) n where "find_ns p s = Some n" "\<not> state n" "s' = s"
  | (marked) n where "find_ns p s = Some n" "state n"
      "set (server_head s') = set (map (\<lambda>n. if ns_ptr n = p
            then n\<lparr>state := False, failed_times := 1,
                   probe_timer := Some (global_nameserver_timeouts ! 0)\<rparr> else n) (server_head s))"
      "mask_ns s' = mask_ns s" "map drop_ns (req_head s') = map drop_ns (req_head s)"
proof -
  from assms obtain n where n: "find_ns p s = Some n"
    by (cases "find_ns p s") (simp_all add: nameserver_failed_def)
  show thesis
  proof (cases "state n")
    case False
    with assms n have "s' = s" by (simp add: nameserver_failed_def)
    with n False show ?thesis by (rule already)
  next
    case True
    let ?s2 = "upd_ns p (\<lambda>n. n\<lparr>state := False, failed_times := 1,
                 probe_timer := Some (global_nameserver_timeouts ! 0)\<rparr>)
               (s\<lparr>global_good_nameservers := global_good_nameservers s - 1\<rparr>)"
    note run = assms [unfolded nameserver_failed_up [OF n True]]
    have "set (server_head s') = set (server_head ?s2) \<and> mask_ns s' = mask_ns s"
    proof (cases "global_good_nameservers s - 1 = 0")
      case z: True
      with run have "s' = ?s2"
        by (simp split: if_splits)
      then show ?thesis by simp
    next
      case nz: False
      with run have "bnd (reassign_walk p (req_head s) ?s2)
             (\<lambda>(rs, s3). Inr (s3\<lparr>req_head := rs\<rparr>)) = Inr s'"
        by (simp split: if_splits)
      then obtain rs s3 where
        w: "reassign_walk p (req_head s) ?s2 = Inr (rs, s3)" and "s' = s3\<lparr>req_head := rs\<rparr>"
        by (auto simp: bnd_eq_Inr)
      with reassign_walk_set [OF w] reassign_walk_ns [OF w] show ?thesis by simp
    qed
    then have a: "set (server_head s') = set (map (\<lambda>n. if ns_ptr n = p
            then n\<lparr>state := False, failed_times := 1,
                   probe_timer := Some (global_nameserver_timeouts ! 0)\<rparr> else n) (server_head s))"
      and b: "mask_ns s' = mask_ns s"
      by simp_all
    show ?thesis by (rule marked [OF n True a b nameserver_failed_reqs [OF assms]])
  qed
qed



lemma find_ns_in: "find_ns p s = Some n \<Longrightarrow> n \<in> set (server_head s) \<and> ns_ptr n = p"
  by (auto simp: find_ns_def find_Some_iff)



lemma drop_ns_rids: "map drop_ns xs = map drop_ns ys \<Longrightarrow> map rid xs = map rid ys"
proof -
  assume "map drop_ns xs = map drop_ns ys"
  then have "map rid (map drop_ns xs) = map rid (map drop_ns ys)" by simp
  then show ?thesis by (simp add: drop_ns_def comp_def)
qed

lemma drop_ns_at:
  assumes "map drop_ns xs = map drop_ns ys" and "i < length ys"
  shows "drop_ns (xs ! i) = drop_ns (ys ! i)"
proof -
  from assms(1) have len: "length xs = length ys"
    using map_eq_imp_length_eq by blast
  from assms(1) have "map drop_ns xs ! i = map drop_ns ys ! i" by simp
  with len assms(2) show ?thesis by simp
qed

lemma update_keeps_rids:
  assumes "\<And>r. rid (f r) = rid r"
  shows "map rid (xs[i := f (xs ! i)]) = map rid xs"
proof (cases "i < length xs")
  case True
  have "map rid (xs[i := f (xs ! i)]) = (map rid xs)[i := rid (f (xs ! i))]"
    by (rule map_update)
  also have "\<dots> = (map rid xs)[i := map rid xs ! i]"
    using True assms by simp
  also have "\<dots> = map rid xs"
    by (rule list_update_id)
  finally show ?thesis .
next
  case False
  then have "length xs \<le> i" by simp
  then show ?thesis by (simp add: list_update_beyond)
qed

lemma upd_req_rids:
  "(\<And>r. rid (f r) = rid r) \<Longrightarrow> map rid (req_head (upd_req i f s)) = map rid (req_head s)"
  by (simp add: update_keeps_rids)

lemma nameserver_failed_rids:
  "nameserver_failed p s = Inr s' \<Longrightarrow> map rid (req_head s') = map rid (req_head s)"
  by (rule drop_ns_rids [OF nameserver_failed_reqs])











lemma drop_ns_fields [simp]:
  "tx_count (drop_ns r) = tx_count r"
  "user_callback (drop_ns r) = user_callback r"
  "user_pointer (drop_ns r) = user_pointer r"
  "rid (drop_ns r) = rid r"
  by (simp_all add: drop_ns_def)

lemma drop_ns_same:
  assumes "drop_ns a = drop_ns b"
  shows "tx_count a = tx_count b" and "user_callback a = user_callback b"
    and "user_pointer a = user_pointer b" and "rid a = rid b"
  using assms [THEN arg_cong, of tx_count] assms [THEN arg_cong, of user_callback]
    assms [THEN arg_cong, of user_pointer] assms [THEN arg_cong, of rid]
  by simp_all






subsection \<open>Where new requests go\<close>

lemma update_keeps:
  assumes "\<And>r. g (f r) = g r"
  shows "map g (xs[i := f (xs ! i)]) = map g xs"
proof (cases "i < length xs")
  case True
  have "map g (xs[i := f (xs ! i)]) = (map g xs)[i := g (f (xs ! i))]"
    by (rule map_update)
  also have "\<dots> = (map g xs)[i := map g xs ! i]"
    using True assms by simp
  also have "\<dots> = map g xs"
    by (rule list_update_id)
  finally show ?thesis .
next
  case False
  then have "length xs \<le> i" by simp
  then show ?thesis by (simp add: list_update_beyond)
qed

lemma upd_req_core:
  "(\<And>r. core (f r) = core r) \<Longrightarrow> map core (req_head (upd_req i f s)) = map core (req_head s)"
  by (simp add: update_keeps)

lemma drop_ns_core: "map drop_ns xs = map drop_ns ys \<Longrightarrow> map core xs = map core ys"
proof -
  assume "map drop_ns xs = map drop_ns ys"
  then have "map core (map drop_ns xs) = map core (map drop_ns ys)" by simp
  moreover have "core \<circ> drop_ns = core"
    by (rule ext) (simp add: core_def drop_ns_def)
  ultimately show ?thesis by simp
qed

lemma nameserver_failed_core:
  "nameserver_failed p s = Inr s' \<Longrightarrow> map core (req_head s') = map core (req_head s)"
  by (rule drop_ns_core [OF nameserver_failed_reqs])

lemma transmit_to_core:
  assumes "evdns_request_transmit_to i p s = Inr (r, s')"
  shows "map core (req_head s') = map core (req_head s)"
proof (cases "case sends s of [] \<Rightarrow> SendOk | x # xs \<Rightarrow> x")
  case SendError
  with assms obtain q where "nameserver_failed q (s\<lparr>sends := tl (sends s)\<rparr>) = Inr s'"
    by (auto simp: evdns_request_transmit_to_def Let_def bnd_eq_Inr with_ns_def
        split: option.splits)
  from nameserver_failed_core [OF this] show ?thesis by simp
qed (use assms in \<open>auto simp: evdns_request_transmit_to_def Let_def\<close>)

lemma transmit_core:
  assumes "evdns_request_transmit i s = Inr (r, s')"
  shows "map core (req_head s') = map core (req_head s)"
proof -
  let ?s1 = "upd_req i (\<lambda>r. r\<lparr>transmit_me := True\<rparr>) s"
  have r1: "map core (req_head ?s1) = map core (req_head s)"
    by (rule upd_req_core) (simp add: core_def)
  from assms obtain p srv where p: "ns (req_head ?s1 ! i) = Some p" and srv: "find_ns p ?s1 = Some srv"
    by (auto simp: evdns_request_transmit_def Let_def split: if_splits option.splits)
  show ?thesis
  proof (cases "choaked srv")
    case True
    with assms p srv have "s' = ?s1"
      by (auto simp: evdns_request_transmit_def Let_def split: if_splits)
    with r1 show ?thesis by (simp only:)
  next
    case False
    with assms p srv obtain r2 s2 where
      to: "evdns_request_transmit_to i p ?s1 = Inr (r2, s2)"
      and rest: "(if r2 = 1 then
                    with_ns (ns (req_head s2 ! i))
                      (\<lambda>q s3. Inr (1, nameserver_write_waiting q True
                                       (upd_ns q (\<lambda>n. n\<lparr>choaked := True\<rparr>) s3))) s2
                  else
                    Inr (if r2 = 2 then 1 else 0,
                         upd_req i (\<lambda>r. r\<lparr>timeout_event := True, tx_count := tx_count r + 1,
                                           transmit_me := False\<rparr>) s2)) = Inr (r, s')"
      by (auto simp: evdns_request_transmit_def Let_def bnd_eq_Inr split: if_splits)
    have a: "map core (req_head s') = map core (req_head s2)"
    proof (cases "r2 = 1")
      case True
      with rest show ?thesis
        by (auto simp: with_ns_def nameserver_write_waiting_def split: option.splits)
    next
      case False
      with rest have "s' = upd_req i (\<lambda>r. r\<lparr>timeout_event := True, tx_count := tx_count r + 1,
                                           transmit_me := False\<rparr>) s2"
        by simp
      moreover have "map core (req_head (upd_req i (\<lambda>r. r\<lparr>timeout_event := True,
                        tx_count := tx_count r + 1, transmit_me := False\<rparr>) s2))
                     = map core (req_head s2)"
        by (rule upd_req_core) (simp add: core_def)
      ultimately show ?thesis by (simp only:)
    qed
    show ?thesis by (rule trans [OF a trans [OF transmit_to_core [OF to] r1]])
  qed
qed



lemma request_new_reqs:
  assumes "request_new ty nm fl cb arg s = Inr (nr, s')"
  shows "req_head s' = req_head s"
proof -
  from assms obtain t s1 where
    a: "(if global_requests_inflight s < global_max_requests_inflight s
         then transaction_id_pick s else Inr (0xffff, s)) = Inr (t, s1)"
    and b: "(case evdns_request_data_build nm t (of_nat ty) (of_nat CLASS_INET)
                   (evdns_request_len (length nm)) of
              Inl e \<Rightarrow> nr = None \<and> s' = s1
            | Inr pkt \<Rightarrow>
                (\<exists>q s2. (if global_requests_inflight s < global_max_requests_inflight s
                          then nameserver_pick s1 else Inr (None, s1)) = Inr (q, s2)
                   \<and> nr = Some \<lparr>rid = next_ptr s2, request = pkt, reissue_count = 0, tx_count = 0,
                         request_type = ty, user_pointer = arg, user_callback = cb, ns = q,
                         search_index = 0, search_state = None, search_origname = None,
                         search_flags = 0, timeout_event = False, trans_id = t,
                         transmit_me = False\<rparr>
                   \<and> s' = s2\<lparr>next_ptr := Suc (next_ptr s2)\<rparr>))"
    unfolding request_new_Inr by blast
  from a have 1: "req_head s1 = req_head s"
    using transaction_id_pick_frame [of s t s1, THEN arg_cong, of req_head]
    by (auto split: if_splits)
  show ?thesis
  proof (cases "evdns_request_data_build nm t (of_nat ty) (of_nat CLASS_INET)
                   (evdns_request_len (length nm))")
    case (Inl e)
    with b 1 show ?thesis by simp
  next
    case (Inr pkt)
    with b obtain q s2 where
      c: "(if global_requests_inflight s < global_max_requests_inflight s
           then nameserver_pick s1 else Inr (None, s1)) = Inr (q, s2)"
      and d: "s' = s2\<lparr>next_ptr := Suc (next_ptr s2)\<rparr>"
      by auto
    from c have "req_head s2 = req_head s1"
      by (auto split: if_splits dest: nameserver_pick_reqs)
    with 1 d show ?thesis by simp
  qed
qed

lemma request_submit_inflight:
  assumes sub: "request_submit req s = Inr s'" and ns: "ns req \<noteq> None"
  shows "map core (req_head s') = map core (req_head s) @ [core req]"
    and "req_waiting_head s' = req_waiting_head s"
    and "global_requests_waiting s' = global_requests_waiting s"
proof -
  from sub ns obtain r where
    tx: "evdns_request_transmit (length (req_head s))
         (s\<lparr>req_head := req_head s @ [req],
            global_requests_inflight := global_requests_inflight s + 1\<rparr>) = Inr (r, s')"
    by (auto simp: request_submit_def Let_def bnd_eq_Inr evdns_request_insert_def)
  from transmit_core [OF tx] show "map core (req_head s') = map core (req_head s) @ [core req]"
    by simp
  from mask_tx_fields(1) [OF evdns_request_transmit_mask [OF tx]]
  show "req_waiting_head s' = req_waiting_head s" by simp
  from mask_tx_fields(3) [OF evdns_request_transmit_mask [OF tx]]
  show "global_requests_waiting s' = global_requests_waiting s" by simp
qed

lemma reverse_cap:
  assumes run: "evdns_resolve_reverse a fl cb arg s = Inr (r, s')"
    and inv: "global_requests_inflight s \<le> global_max_requests_inflight s"
  shows "global_requests_inflight s' \<le> global_max_requests_inflight s'"
proof (cases a)
  case None
  with run show ?thesis by (simp add: evdns_resolve_reverse_def)
next
  case (Some s_addr)
  with run obtain buf where "bnd (request_new TYPE_PTR buf fl cb arg s) (\<lambda>(nr, s1).
              case nr of
                None \<Rightarrow> Inr (1, s1)
              | Some req \<Rightarrow> bnd (request_submit req s1) (\<lambda>s2. Inr (0, s2))) = Inr (r, s')"
    by (simp add: evdns_resolve_reverse_def Let_def)
  from plain_cap [OF this inv] show ?thesis .
qed

lemma search_try_next_cap:
  assumes run: "search_try_next i s = Inr (r, s')"
    and inv: "global_requests_inflight s \<le> global_max_requests_inflight s"
  shows "global_requests_inflight s' \<le> global_max_requests_inflight s'"
proof -
  let ?s1 = "upd_req i (\<lambda>r. r\<lparr>search_index := search_index r + 1\<rparr>) s"
  let ?req = "req_head ?s1 ! i"
  have inv1: "global_requests_inflight ?s1 \<le> global_max_requests_inflight ?s1"
    using inv by (simp add: upd_req_def)
  from run have i: "i < length (req_head s)"
    by (auto simp: search_try_next_def split: if_splits)
  show ?thesis
  proof (cases "search_state (req_head s ! i)")
    case None
    with run i have "s' = s" by (simp add: search_try_next_def)
    with inv show ?thesis by simp
  next
    case (Some p)
    with run i obtain st orig where st: "search_states ?s1 p = Some st"
      and orig: "search_origname ?req = Some orig"
      by (auto simp: search_try_next_def Let_def split: option.splits)
    show ?thesis
    proof (cases "search_index ?req \<ge> num_domains st")
      case True
      show ?thesis
      proof (cases "string_num_dots orig < ndots st")
        case False
        with run i Some st orig True have "s' = ?s1"
          by (simp add: search_try_next_def Let_def)
        with inv1 show ?thesis by simp
      next
        case dots: True
        with run i Some st orig True have
          "bnd (request_new (request_type ?req) orig (search_flags ?req)
                  (user_callback ?req) (user_pointer ?req) ?s1) (\<lambda>(nr, s2).
             case nr of
               None \<Rightarrow> Inr (1, s2)
             | Some newreq \<Rightarrow> bnd (request_submit newreq s2) (\<lambda>s3. Inr (0, s3))) = Inr (r, s')"
          by (simp add: search_try_next_def Let_def)
        from plain_cap [OF this inv1] show ?thesis .
      qed
    next
      case False
      with run i Some st orig obtain new_name nr s2 where
        new: "request_new (request_type ?req) new_name (search_flags ?req)
                (user_callback ?req) (user_pointer ?req) ?s1 = Inr (nr, s2)"
        and rest: "(case nr of
                      None \<Rightarrow> Inr (1, s2)
                    | Some newreq \<Rightarrow>
                        bnd (upd_search p (\<lambda>st. st\<lparr>refcount := refcount st + 1\<rparr>)
                               (upd_req i (\<lambda>r. r\<lparr>search_origname := None\<rparr>) s2)) (\<lambda>s3.
                        bnd (request_submit
                               (newreq\<lparr>search_origname := Some orig, search_state := Some p,
                                       search_flags := search_flags ?req,
                                       search_index := search_index ?req\<rparr>) s3)
                          (\<lambda>s4. Inr (0, s4)))) = Inr (r, s')"
        by (auto simp: search_try_next_def Let_def bnd_eq_Inr)
      show ?thesis
      proof (cases nr)
        case None
        with rest have "s' = s2" by simp
        with mask_io_fields [OF request_new_io [OF new]] inv1 show ?thesis by simp
      next
        case (Some newreq)
        with rest obtain s3 where
          up: "upd_search p (\<lambda>st. st\<lparr>refcount := refcount st + 1\<rparr>)
                 (upd_req i (\<lambda>r. r\<lparr>search_origname := None\<rparr>) s2) = Inr s3"
          and sub: "request_submit
                      (newreq\<lparr>search_origname := Some orig, search_state := Some p,
                              search_flags := search_flags ?req,
                              search_index := search_index ?req\<rparr>) s3 = Inr s'"
          by (auto simp: bnd_eq_Inr)
        from new Some have n: "request_new (request_type ?req) new_name (search_flags ?req)
                (user_callback ?req) (user_pointer ?req) ?s1 = Inr (Some newreq, s2)" by simp
        from upd_search_fields [OF up]
        have same: "global_requests_inflight s3 = global_requests_inflight s2"
          "global_max_requests_inflight s3 = global_max_requests_inflight s2"
          by (simp_all add: upd_req_def)
        show ?thesis
          by (rule submit_new_cap [OF n same _ sub inv1]) simp
      qed
    qed
  qed
qed

lemma probe_inserted:
  assumes "nameserver_send_probe p s = Inr s'"
  shows "\<exists>r. map core (req_head s') = map core (req_head s) @ [r]
           \<and> user_callback r = nameserver_probe_callback_fn \<and> user_pointer r = p"
    and "req_waiting_head s' = req_waiting_head s"
    and "global_requests_waiting s' = global_requests_waiting s"
proof -
  from assms obtain nr s1 where
    new: "request_new TYPE_A ''www.google.com'' DNS_QUERY_NO_SEARCH
            nameserver_probe_callback_fn p s = Inr (nr, s1)"
    and rest: "(case nr of
         None \<Rightarrow> Inr s1
       | Some req \<Rightarrow>
           bnd (transaction_id_pick s1) (\<lambda>(t, s2).
             request_submit ((request_trans_id_set req t)\<lparr>ns := Some p\<rparr>) s2)) = Inr s'"
    by (auto simp: nameserver_send_probe_def bnd_eq_Inr)
  from new probe_name_encodes obtain req where nr: "nr = Some req"
    unfolding request_new_Inr by (cases nr) (auto split: sum.splits)
  with rest obtain t s2 where
    tid: "transaction_id_pick s1 = Inr (t, s2)"
    and sub: "request_submit ((request_trans_id_set req t)\<lparr>ns := Some p\<rparr>) s2 = Inr s'"
    by (auto simp: bnd_eq_Inr)
  from new nr have new': "request_new TYPE_A ''www.google.com'' DNS_QUERY_NO_SEARCH
            nameserver_probe_callback_fn p s = Inr (Some req, s1)" by simp
  have fields: "user_callback req = nameserver_probe_callback_fn \<and> user_pointer req = p"
    by (rule request_new_unfold [OF new']) simp
  note a = mask_io_fields [OF request_new_io [OF new]]
  note b = mask_io_fields [OF transaction_id_pick_io [OF tid]]
  have r1: "req_head s1 = req_head s" by (rule request_new_reqs [OF new])
  have r2: "req_head s2 = req_head s1"
    using transaction_id_pick_frame [OF tid, THEN arg_cong, of req_head] by simp
  have nsn: "ns ((request_trans_id_set req t)\<lparr>ns := Some p\<rparr>) \<noteq> None" by simp
  note c = request_submit_inflight [OF sub nsn]
  from c(1) r1 r2 fields
  show "\<exists>r. map core (req_head s') = map core (req_head s) @ [r]
           \<and> user_callback r = nameserver_probe_callback_fn \<and> user_pointer r = p"
    by (simp add: core_def request_trans_id_set_def)
  from c(2) a(1) b(1) show "req_waiting_head s' = req_waiting_head s" by simp
  from c(3) a(3) b(3) show "global_requests_waiting s' = global_requests_waiting s" by simp
qed

lemma search_state_decref_counts:
  assumes "search_state_decref q s = Inr s'"
  shows "global_requests_inflight s' = global_requests_inflight s"
    and "global_max_requests_inflight s' = global_max_requests_inflight s"
  using assms by (auto simp: search_state_decref_def split: option.splits if_splits)

lemma request_finished_cap:
  assumes run: "request_finished i s = Inr s'"
    and inv: "global_requests_inflight s \<le> global_max_requests_inflight s"
  shows "global_requests_inflight s' \<le> global_max_requests_inflight s'"
proof -
  from run obtain s2 where
    dec: "search_state_decref (search_state (req_head s ! i))
            (s\<lparr>req_head := take i (req_head s) @ drop (Suc i) (req_head s)\<rparr>) = Inr s2"
    and pump: "evdns_requests_pump_waiting_queue
                 (s2\<lparr>global_requests_inflight := global_requests_inflight s2 - 1\<rparr>) = Inr s'"
    by (auto simp: request_finished_def search_request_finished_def Let_def bnd_eq_Inr
        split: if_splits)
  from search_state_decref_counts [OF dec] inv
  have "global_requests_inflight (s2\<lparr>global_requests_inflight := global_requests_inflight s2 - 1\<rparr>)
        \<le> global_max_requests_inflight (s2\<lparr>global_requests_inflight := global_requests_inflight s2 - 1\<rparr>)"
    by simp
  from pump_cap [OF pump this] show ?thesis by simp
qed

lemma resume_cap:
  assumes run: "evdns_resume s = Inr (r, s')"
    and inv: "global_requests_inflight s \<le> global_max_requests_inflight s"
  shows "global_requests_inflight s' \<le> global_max_requests_inflight s'"
proof -
  from run have "evdns_requests_pump_waiting_queue s = Inr s'"
    by (auto simp: evdns_resume_def bnd_eq_Inr)
  from pump_cap [OF this inv] show ?thesis by simp
qed

lemma core_fields [simp]:
  "rid (core r) = rid r" "user_callback (core r) = user_callback r"
  "user_pointer (core r) = user_pointer r" "request (core r) = request r"
  "trans_id (core r) = trans_id r" "request_type (core r) = request_type r"
  "search_state (core r) = search_state r" "search_index (core r) = search_index r"
  "search_origname (core r) = search_origname r" "search_flags (core r) = search_flags r"
  "reissue_count (core r) = reissue_count r"
  by (simp_all add: core_def)

lemma core_appended:
  assumes "map core xs' = map core xs @ [r]"
  shows "length xs' = length xs + 1"
    and "map rid xs' = map rid xs @ [rid (last xs')]"
    and "user_callback (last xs') = user_callback r"
    and "user_pointer (last xs') = user_pointer r"
proof -
  from assms have "length (map core xs') = length (map core xs @ [r])" by (simp only:)
  then show len: "length xs' = length xs + 1" by simp
  then have ne: "xs' \<noteq> []" by auto
  from assms have "last (map core xs') = r" by simp
  with ne have l: "core (last xs') = r" by (simp add: last_map)
  from l [symmetric] show "user_callback (last xs') = user_callback r"
    "user_pointer (last xs') = user_pointer r" by simp_all
  have "map rid xs' = map rid (map core xs')" by simp
  also have "\<dots> = map rid (map core xs @ [r])" by (simp only: assms)
  also have "\<dots> = map rid xs @ [rid (last xs')]" using l [symmetric] by simp
  finally show "map rid xs' = map rid xs @ [rid (last xs')]" .
qed

subsection \<open>What happens to the nameservers\<close>

lemma ns_keep_refl [simp]: "ns_keep xs xs"
  by (simp add: ns_keep_def)

lemma ns_keep_trans: "ns_keep xs ys \<Longrightarrow> ns_keep ys zs \<Longrightarrow> ns_keep xs zs"
  unfolding ns_keep_def by auto

lemma ns_keep_set: "set ys = set xs \<Longrightarrow> ns_keep xs ys"
  by (simp add: ns_keep_def ns_view_def ns_ups_def)

lemma ns_keep_image:
  assumes img: "set ys = g ` set xs"
    and ptr: "\<And>n. ns_ptr (g n) = ns_ptr n" and td: "\<And>n. timedout (g n) = timedout n"
    and st: "\<And>n. state (g n) \<Longrightarrow> state n"
  shows "ns_keep xs ys"
proof -
  have "ns_view ys = (\<lambda>n. (ns_ptr (g n), timedout (g n))) ` set xs"
    unfolding ns_view_def img by (simp only: image_image)
  then have v: "ns_view ys = ns_view xs"
    by (simp only: ptr td ns_view_def)
  have u: "ns_ups ys \<subseteq> ns_ups xs"
  proof
    fix x
    assume "x \<in> ns_ups ys"
    then obtain m where m: "m \<in> set ys" "state m" "x = ns_ptr m"
      unfolding ns_ups_def by blast
    with img obtain n where n: "n \<in> set xs" "m = g n" by blast
    with m st [of n] ptr [of n] have "n \<in> set xs" "state n" "x = ns_ptr n" by simp_all
    then show "x \<in> ns_ups xs" unfolding ns_ups_def by blast
  qed
  from v u show ?thesis by (simp add: ns_keep_def)
qed

lemma upd_ns_keep:
  assumes ptr: "\<And>n. ns_ptr (f n) = ns_ptr n" and td: "\<And>n. timedout (f n) = timedout n"
    and st: "\<And>n. state (f n) \<Longrightarrow> state n"
  shows "ns_keep (server_head s) (server_head (upd_ns p f s))"
proof (rule ns_keep_image [where g = "\<lambda>n. if ns_ptr n = p then f n else n"])
  show "set (server_head (upd_ns p f s)) = (\<lambda>n. if ns_ptr n = p then f n else n) ` set (server_head s)"
    by (simp only: upd_ns_fields set_map)
  show "ns_ptr (if ns_ptr n = p then f n else n) = ns_ptr n" for n
    by (simp add: ptr)
  show "timedout (if ns_ptr n = p then f n else n) = timedout n" for n
    by (simp add: td)
  show "state n" if "state (if ns_ptr n = p then f n else n)" for n
    using that st [of n] by (cases "ns_ptr n = p") simp_all
qed

lemma nameserver_pick_keep:
  "nameserver_pick s = Inr (q, s') \<Longrightarrow> ns_keep (server_head s) (server_head s')"
  by (rule ns_keep_set [OF nameserver_pick_set])

lemma nameserver_failed_keep:
  assumes "nameserver_failed p s = Inr s'"
  shows "ns_keep (server_head s) (server_head s')"
  using assms
proof (cases rule: nameserver_failed_cases)
  case (already n)
  then show ?thesis by simp
next
  case (marked n)
  show ?thesis
  proof (rule ns_keep_image [where g = "\<lambda>n. if ns_ptr n = p
            then n\<lparr>state := False, failed_times := 1,
                   probe_timer := Some (global_nameserver_timeouts ! 0)\<rparr> else n"])
    from marked(3) show "set (server_head s') = (\<lambda>n. if ns_ptr n = p
            then n\<lparr>state := False, failed_times := 1,
                   probe_timer := Some (global_nameserver_timeouts ! 0)\<rparr> else n) ` set (server_head s)"
      by (simp only: set_map)
  qed (simp_all split: if_splits)
qed

lemma transmit_to_keep:
  assumes "evdns_request_transmit_to i p s = Inr (r, s')"
  shows "ns_keep (server_head s) (server_head s')"
proof (cases "case sends s of [] \<Rightarrow> SendOk | x # xs \<Rightarrow> x")
  case SendError
  with assms obtain q where "nameserver_failed q (s\<lparr>sends := tl (sends s)\<rparr>) = Inr s'"
    by (auto simp: evdns_request_transmit_to_def Let_def bnd_eq_Inr with_ns_def
        split: option.splits)
  from nameserver_failed_keep [OF this] show ?thesis by simp
qed (use assms in \<open>auto simp: evdns_request_transmit_to_def Let_def\<close>)

lemma transmit_keep:
  assumes "evdns_request_transmit i s = Inr (r, s')"
  shows "ns_keep (server_head s) (server_head s')"
proof -
  let ?s1 = "upd_req i (\<lambda>r. r\<lparr>transmit_me := True\<rparr>) s"
  have r1: "server_head ?s1 = server_head s" by simp
  from assms obtain p srv where p: "ns (req_head ?s1 ! i) = Some p" and srv: "find_ns p ?s1 = Some srv"
    by (auto simp: evdns_request_transmit_def Let_def split: if_splits option.splits)
  show ?thesis
  proof (cases "choaked srv")
    case True
    with assms p srv have "s' = ?s1"
      by (auto simp: evdns_request_transmit_def Let_def split: if_splits)
    then show ?thesis by simp
  next
    case False
    with assms p srv obtain r2 s2 where
      to: "evdns_request_transmit_to i p ?s1 = Inr (r2, s2)"
      and rest: "(if r2 = 1 then
                    with_ns (ns (req_head s2 ! i))
                      (\<lambda>q s3. Inr (1, nameserver_write_waiting q True
                                       (upd_ns q (\<lambda>n. n\<lparr>choaked := True\<rparr>) s3))) s2
                  else
                    Inr (if r2 = 2 then 1 else 0,
                         upd_req i (\<lambda>r. r\<lparr>timeout_event := True, tx_count := tx_count r + 1,
                                           transmit_me := False\<rparr>) s2)) = Inr (r, s')"
      by (auto simp: evdns_request_transmit_def Let_def bnd_eq_Inr split: if_splits)
    have a: "ns_keep (server_head s2) (server_head s')"
    proof (cases "r2 = 1")
      case True
      with rest obtain q where
        s': "s' = nameserver_write_waiting q True (upd_ns q (\<lambda>n. n\<lparr>choaked := True\<rparr>) s2)"
        by (auto simp: with_ns_def split: option.splits)
      have "ns_keep (server_head s2) (server_head (upd_ns q (\<lambda>n. n\<lparr>choaked := True\<rparr>) s2))"
        by (rule upd_ns_keep) simp_all
      moreover have "ns_keep (server_head (upd_ns q (\<lambda>n. n\<lparr>choaked := True\<rparr>) s2)) (server_head s')"
        unfolding s' nameserver_write_waiting_def
        by (rule upd_ns_keep) (simp_all split: if_splits)
      ultimately show ?thesis by (rule ns_keep_trans)
    next
      case False
      with rest have "s' = upd_req i (\<lambda>r. r\<lparr>timeout_event := True, tx_count := tx_count r + 1,
                                           transmit_me := False\<rparr>) s2"
        by simp
      then have "server_head s' = server_head s2" by simp
      then show ?thesis by simp
    qed
    from transmit_to_keep [OF to] have "ns_keep (server_head s) (server_head s2)"
      by (simp only: r1)
    from this a show ?thesis by (rule ns_keep_trans)
  qed
qed

lemma transmit_loop_keep:
  "evdns_transmit_loop is d s = Inr (d', s') \<Longrightarrow> ns_keep (server_head s) (server_head s')"
proof (induction "is" arbitrary: d s)
  case Nil
  then show ?case by simp
next
  case (Cons i "is")
  show ?case
  proof (cases "transmit_me (req_head s ! i)")
    case False
    with Cons.prems have "evdns_transmit_loop is d s = Inr (d', s')" by simp
    then show ?thesis by (rule Cons.IH)
  next
    case True
    with Cons.prems obtain r s1 where
      tx: "evdns_request_transmit i s = Inr (r, s1)"
      and rest: "evdns_transmit_loop is True s1 = Inr (d', s')"
      by (auto simp: bnd_eq_Inr)
    from transmit_keep [OF tx] Cons.IH [OF rest] show ?thesis by (rule ns_keep_trans)
  qed
qed

lemma pump_one_keep:
  assumes "pump_one req s = Inr s'"
  shows "ns_keep (server_head s) (server_head s')"
proof -
  from assms obtain q s2 t s3 r s5 d where
    pick: "nameserver_pick (s\<lparr>global_requests_waiting := global_requests_waiting s - 1,
        global_requests_inflight := global_requests_inflight s + 1\<rparr>) = Inr (q, s2)"
    and tid: "transaction_id_pick s2 = Inr (t, s3)"
    and tx: "evdns_request_transmit (length (req_head s3))
           (s3\<lparr>req_head := req_head s3 @ [request_trans_id_set (req\<lparr>ns := q\<rparr>) t]\<rparr>) = Inr (r, s5)"
    and txall: "evdns_transmit s5 = Inr (d, s')"
    by (rule pump_one_unfold)
  from nameserver_pick_keep [OF pick] have 1: "ns_keep (server_head s) (server_head s2)" by simp
  have 2: "server_head s3 = server_head s2"
    using transaction_id_pick_frame [OF tid, THEN arg_cong, of server_head] by simp
  from transmit_keep [OF tx] have 3: "ns_keep (server_head s3) (server_head s5)" by simp
  from txall have 4: "ns_keep (server_head s5) (server_head s')"
    unfolding evdns_transmit_def by (rule transmit_loop_keep)
  from 1 2 have "ns_keep (server_head s) (server_head s3)" by simp
  from this 3 have "ns_keep (server_head s) (server_head s5)" by (rule ns_keep_trans)
  from this 4 show ?thesis by (rule ns_keep_trans)
qed

lemma pump_keep:
  "evdns_requests_pump_waiting_queue s = Inr s' \<Longrightarrow> ns_keep (server_head s) (server_head s')"
proof (induction s rule: evdns_requests_pump_waiting_queue.induct)
  case (1 s)
  show ?case
  proof (cases "global_requests_inflight s < global_max_requests_inflight s
         \<and> global_requests_waiting s \<noteq> 0")
    case False
    with "1.prems" show ?thesis
      by (simp add: evdns_requests_pump_waiting_queue.simps [of s])
  next
    case True
    with "1.prems"(1) obtain req rest s1 where
      w: "req_waiting_head s = req # rest"
      and one: "pump_one req (s\<lparr>req_waiting_head := rest\<rparr>) = Inr s1"
      and rest: "evdns_requests_pump_waiting_queue s1 = Inr s'"
      by (auto simp: evdns_requests_pump_waiting_queue.simps [of s]
          split: list.splits sum.splits)
    from pump_one_keep [OF one] have "ns_keep (server_head s) (server_head s1)" by simp
    from this "1.IH" [OF True w one rest] show ?thesis by (rule ns_keep_trans)
  qed
qed

lemma search_state_decref_servers:
  "search_state_decref q s = Inr s' \<Longrightarrow> server_head s' = server_head s"
  by (auto simp: search_state_decref_def split: option.splits if_splits)

lemma request_finished_keep:
  assumes "request_finished i s = Inr s'"
  shows "ns_keep (server_head s) (server_head s')"
proof -
  from assms obtain s2 where
    a: "search_state_decref (search_state (req_head s ! i))
          (s\<lparr>req_head := take i (req_head s) @ drop (Suc i) (req_head s)\<rparr>) = Inr s2"
    and b: "evdns_requests_pump_waiting_queue
              (s2\<lparr>global_requests_inflight := global_requests_inflight s2 - 1\<rparr>) = Inr s'"
    by (auto simp: request_finished_def search_request_finished_def Let_def bnd_eq_Inr
        split: if_splits)
  from search_state_decref_servers [OF a] pump_keep [OF b] show ?thesis by simp
qed

lemma nameserver_probe_failed_keep:
  assumes "nameserver_probe_failed p s = Inr s'"
  shows "ns_keep (server_head s) (server_head s')"
proof -
  from assms obtain n where n: "find_ns p s = Some n"
    by (cases "find_ns p s") (simp_all add: nameserver_probe_failed_def)
  show ?thesis
  proof (cases "state n")
    case True
    with assms n have "s' = upd_ns p (\<lambda>n. n\<lparr>probe_timer := None\<rparr>) s"
      by (simp add: nameserver_probe_failed_def)
    then show ?thesis by (simp only:) (rule upd_ns_keep, simp_all)
  next
    case False
    with assms n have "s' = upd_ns p (\<lambda>n. n\<lparr>failed_times := failed_times n + 1,
                       probe_timer := Some (global_nameserver_timeouts !
                          nat (min (failed_times n) (int (length global_nameserver_timeouts) - 1)))\<rparr>) s"
      by (simp add: nameserver_probe_failed_def split: if_splits)
    then show ?thesis by (simp only:) (rule upd_ns_keep, simp_all)
  qed
qed

lemma reply_callback_keep:
  assumes run: "reply_callback i ttl err None s = Inr s'"
    and err: "err \<noteq> DNS_ERR_NONE" "err \<noteq> DNS_ERR_NOTEXIST"
  shows "ns_keep (server_head s) (server_head s')"
proof -
  from run have call: "call_user_callback (req_head s ! i) err 0 0 0 NoData s = Inr s'"
    by (auto simp: reply_callback_def Let_def split: if_splits)
  show ?thesis
  proof (cases "user_callback (req_head s ! i)")
    case (user_fn f)
    with call have "server_head s' = server_head s"
      by (auto simp: call_user_callback_def)
    then show ?thesis by simp
  next
    case nameserver_probe_callback_fn
    with call err have "nameserver_probe_failed (user_pointer (req_head s ! i)) s = Inr s'"
      by (simp add: call_user_callback_def nameserver_probe_callback_def)
    then show ?thesis by (rule nameserver_probe_failed_keep)
  qed
qed

lemma request_new_keep:
  assumes "request_new ty nm fl cb arg s = Inr (nr, s')"
  shows "ns_keep (server_head s) (server_head s')"
proof -
  from assms obtain t s1 where
    a: "(if global_requests_inflight s < global_max_requests_inflight s
         then transaction_id_pick s else Inr (0xffff, s)) = Inr (t, s1)"
    and b: "(case evdns_request_data_build nm t (of_nat ty) (of_nat CLASS_INET)
                   (evdns_request_len (length nm)) of
              Inl e \<Rightarrow> nr = None \<and> s' = s1
            | Inr pkt \<Rightarrow>
                (\<exists>q s2. (if global_requests_inflight s < global_max_requests_inflight s
                          then nameserver_pick s1 else Inr (None, s1)) = Inr (q, s2)
                   \<and> nr = Some \<lparr>rid = next_ptr s2, request = pkt, reissue_count = 0, tx_count = 0,
                         request_type = ty, user_pointer = arg, user_callback = cb, ns = q,
                         search_index = 0, search_state = None, search_origname = None,
                         search_flags = 0, timeout_event = False, trans_id = t,
                         transmit_me = False\<rparr>
                   \<and> s' = s2\<lparr>next_ptr := Suc (next_ptr s2)\<rparr>))"
    unfolding request_new_Inr by blast
  from a have 1: "server_head s1 = server_head s"
    using transaction_id_pick_frame [of s t s1, THEN arg_cong, of server_head]
    by (auto split: if_splits)
  show ?thesis
  proof (cases "evdns_request_data_build nm t (of_nat ty) (of_nat CLASS_INET)
                   (evdns_request_len (length nm))")
    case (Inl e)
    with b 1 show ?thesis by simp
  next
    case (Inr pkt)
    with b obtain q s2 where
      c: "(if global_requests_inflight s < global_max_requests_inflight s
           then nameserver_pick s1 else Inr (None, s1)) = Inr (q, s2)"
      and d: "s' = s2\<lparr>next_ptr := Suc (next_ptr s2)\<rparr>"
      by auto
    from c have "ns_keep (server_head s1) (server_head s2)"
      by (auto split: if_splits dest: nameserver_pick_keep)
    with 1 d show ?thesis by simp
  qed
qed

lemma request_submit_keep:
  assumes sub: "request_submit req s = Inr s'"
  shows "ns_keep (server_head s) (server_head s')"
proof (cases "ns req")
  case None
  with sub show ?thesis by (auto simp: request_submit_def)
next
  case (Some p)
  with sub obtain r where
    tx: "evdns_request_transmit (length (req_head s))
         (s\<lparr>req_head := req_head s @ [req],
            global_requests_inflight := global_requests_inflight s + 1\<rparr>) = Inr (r, s')"
    by (auto simp: request_submit_def Let_def bnd_eq_Inr evdns_request_insert_def)
  from transmit_keep [OF tx] show ?thesis by simp
qed

lemma plain_keep:
  assumes "bnd (request_new ty nm fl cb arg s) (\<lambda>(nr, s1).
              case nr of
                None \<Rightarrow> Inr (1, s1)
              | Some req \<Rightarrow> bnd (request_submit req s1) (\<lambda>s2. Inr (0, s2))) = Inr (r, s')"
  shows "ns_keep (server_head s) (server_head s')"
proof -
  from assms(1) obtain nr s1 where
    new: "request_new ty nm fl cb arg s = Inr (nr, s1)"
    and rest: "(case nr of
                None \<Rightarrow> Inr (1, s1)
              | Some req \<Rightarrow> bnd (request_submit req s1) (\<lambda>s2. Inr (0, s2))) = Inr (r, s')"
    by (auto simp: bnd_eq_Inr)
  show ?thesis
  proof (cases nr)
    case None
    with rest have "s' = s1" by simp
    with request_new_keep [OF new] show ?thesis by simp
  next
    case (Some req)
    with rest have sub: "request_submit req s1 = Inr s'"
      by (auto simp: bnd_eq_Inr)
    from request_new_keep [OF new] request_submit_keep [OF sub] show ?thesis
      by (rule ns_keep_trans)
  qed
qed

lemma upd_search_servers:
  "upd_search p f s = Inr s' \<Longrightarrow> server_head s' = server_head s"
  by (auto simp: upd_search_def split: option.splits)

lemma search_try_next_keep:
  assumes run: "search_try_next i s = Inr (r, s')"
  shows "ns_keep (server_head s) (server_head s')"
proof -
  let ?s1 = "upd_req i (\<lambda>r. r\<lparr>search_index := search_index r + 1\<rparr>) s"
  let ?req = "req_head ?s1 ! i"
  have sv1: "server_head ?s1 = server_head s" by simp
  from run have i: "i < length (req_head s)"
    by (auto simp: search_try_next_def split: if_splits)
  show ?thesis
  proof (cases "search_state (req_head s ! i)")
    case None
    with run i have "s' = s" by (simp add: search_try_next_def)
    then show ?thesis by simp
  next
    case (Some p)
    with run i obtain st orig where st: "search_states ?s1 p = Some st"
      and orig: "search_origname ?req = Some orig"
      by (auto simp: search_try_next_def Let_def split: option.splits)
    show ?thesis
    proof (cases "search_index ?req \<ge> num_domains st")
      case True
      show ?thesis
      proof (cases "string_num_dots orig < ndots st")
        case False
        with run i Some st orig True have "s' = ?s1"
          by (simp add: search_try_next_def Let_def)
        then show ?thesis by simp
      next
        case dots: True
        with run i Some st orig True have
          "bnd (request_new (request_type ?req) orig (search_flags ?req)
                  (user_callback ?req) (user_pointer ?req) ?s1) (\<lambda>(nr, s2).
             case nr of
               None \<Rightarrow> Inr (1, s2)
             | Some newreq \<Rightarrow> bnd (request_submit newreq s2) (\<lambda>s3. Inr (0, s3))) = Inr (r, s')"
          by (simp add: search_try_next_def Let_def)
        from plain_keep [OF this] show ?thesis by (simp only: sv1)
      qed
    next
      case False
      with run i Some st orig obtain new_name nr s2 where
        new: "request_new (request_type ?req) new_name (search_flags ?req)
                (user_callback ?req) (user_pointer ?req) ?s1 = Inr (nr, s2)"
        and rest: "(case nr of
                      None \<Rightarrow> Inr (1, s2)
                    | Some newreq \<Rightarrow>
                        bnd (upd_search p (\<lambda>st. st\<lparr>refcount := refcount st + 1\<rparr>)
                               (upd_req i (\<lambda>r. r\<lparr>search_origname := None\<rparr>) s2)) (\<lambda>s3.
                        bnd (request_submit
                               (newreq\<lparr>search_origname := Some orig, search_state := Some p,
                                       search_flags := search_flags ?req,
                                       search_index := search_index ?req\<rparr>) s3)
                          (\<lambda>s4. Inr (0, s4)))) = Inr (r, s')"
        by (auto simp: search_try_next_def Let_def bnd_eq_Inr)
      from request_new_keep [OF new] have k1: "ns_keep (server_head s) (server_head s2)"
        by (simp only: sv1)
      show ?thesis
      proof (cases nr)
        case None
        with rest have "s' = s2" by simp
        with k1 show ?thesis by simp
      next
        case (Some newreq)
        with rest obtain s3 where
          up: "upd_search p (\<lambda>st. st\<lparr>refcount := refcount st + 1\<rparr>)
                 (upd_req i (\<lambda>r. r\<lparr>search_origname := None\<rparr>) s2) = Inr s3"
          and sub: "request_submit
                      (newreq\<lparr>search_origname := Some orig, search_state := Some p,
                              search_flags := search_flags ?req,
                              search_index := search_index ?req\<rparr>) s3 = Inr s'"
          by (auto simp: bnd_eq_Inr)
        from upd_search_servers [OF up] have "server_head s3 = server_head s2" by simp
        with k1 have "ns_keep (server_head s) (server_head s3)" by simp
        from this request_submit_keep [OF sub] show ?thesis by (rule ns_keep_trans)
      qed
    qed
  qed
qed

lemma surface_keep:
  assumes run: "bnd (reply_callback i 0 err None s) (request_finished i) = Inr s'"
    and err: "err \<noteq> DNS_ERR_NONE" "err \<noteq> DNS_ERR_NOTEXIST"
  shows "ns_keep (server_head s) (server_head s')"
proof -
  from run obtain s1 where cb: "reply_callback i 0 err None s = Inr s1"
    and fin: "request_finished i s1 = Inr s'"
    by (auto simp: bnd_eq_Inr)
  from reply_callback_keep [OF cb err] request_finished_keep [OF fin] show ?thesis
    by (rule ns_keep_trans)
qed

lemma reply_handle_fail_keep:
  assumes run: "reply_handle_fail i err s = Inr s'"
    and err: "err \<noteq> DNS_ERR_NONE" "err \<noteq> DNS_ERR_NOTEXIST"
  shows "ns_keep (server_head s) (server_head s')"
proof (cases "search_state (req_head s ! i) \<noteq> None \<and> request_type (req_head s ! i) \<noteq> TYPE_PTR")
  case False
  with run have "bnd (reply_callback i 0 err None s) (request_finished i) = Inr s'"
    by (auto simp: reply_handle_fail_def Let_def)
  from surface_keep [OF this err] show ?thesis .
next
  case True
  with run obtain r s1 where nxt: "search_try_next i s = Inr (r, s1)"
    and rest: "(if r = 0 then request_finished i s1
                else bnd (reply_callback i 0 err None s1) (request_finished i)) = Inr s'"
    by (auto simp: reply_handle_fail_def Let_def bnd_eq_Inr)
  have "ns_keep (server_head s1) (server_head s')"
  proof (cases "r = 0")
    case True
    with rest have "request_finished i s1 = Inr s'" by simp
    then show ?thesis by (rule request_finished_keep)
  next
    case False
    with rest have "bnd (reply_callback i 0 err None s1) (request_finished i) = Inr s'" by simp
    from surface_keep [OF this err] show ?thesis .
  qed
  with search_try_next_keep [OF nxt] show ?thesis by (rule ns_keep_trans)
qed

text \<open>What keeping says about one nameserver.\<close>

lemma ns_view_find:
  assumes "p \<in> fst ` ns_view (server_head s)"
  obtains n where "find_ns p s = Some n" "n \<in> set (server_head s)" "ns_ptr n = p"
proof -
  from assms obtain m where "m \<in> set (server_head s)" "ns_ptr m = p"
    unfolding ns_view_def by force
  then have "find_ns p s \<noteq> None"
    by (auto simp: find_ns_def find_None_iff)
  then obtain n where "find_ns p s = Some n" by blast
  with find_ns_in [OF this] that show thesis by blast
qed

lemma ns_keep_down:
  assumes keep: "ns_keep xs (server_head s')" and down: "p \<notin> ns_ups xs"
    and ex: "p \<in> fst ` ns_view xs"
  shows "ns_down p s'"
proof -
  from keep have v: "ns_view (server_head s') = ns_view xs"
    and u: "ns_ups (server_head s') \<subseteq> ns_ups xs"
    by (simp_all add: ns_keep_def)
  from ex v have "p \<in> fst ` ns_view (server_head s')" by simp
  then obtain n where n: "find_ns p s' = Some n" "n \<in> set (server_head s')" "ns_ptr n = p"
    by (rule ns_view_find)
  have "\<not> state n"
  proof
    assume "state n"
    with n have "p \<in> ns_ups (server_head s')" unfolding ns_ups_def by blast
    with u down show False by blast
  qed
  with n show ?thesis by (simp add: ns_down_def)
qed


lemma find_ns_view:
  "find_ns p s = Some n \<Longrightarrow> p \<in> fst ` ns_view (server_head s)"
  using find_ns_in [of p s n] unfolding ns_view_def by force

lemma distinct_only:
  assumes d: "distinct (map ns_ptr xs)" and a: "a \<in> set xs" and b: "b \<in> set xs"
    and eq: "ns_ptr a = ns_ptr b"
  shows "a = b"
  using d a b eq by (meson distinct_map inj_onD)


lemma image_at:
  assumes img: "set ys = g ` set xs" and ptr: "\<And>n. ns_ptr (g n) = ns_ptr n"
    and all: "\<forall>n \<in> set xs. ns_ptr n = p \<longrightarrow> P (g n)"
  shows "\<forall>m \<in> set ys. ns_ptr m = p \<longrightarrow> P m"
proof (intro ballI impI)
  fix m
  assume "m \<in> set ys" and p: "ns_ptr m = p"
  with img obtain n where n: "n \<in> set xs" "m = g n" by blast
  with p ptr [of n] have "ns_ptr n = p" by simp
  with all n show "P m" by simp
qed



lemma nameserver_failed_not_up:
  assumes run: "nameserver_failed p s = Inr s'"
    and dist: "distinct (map ns_ptr (server_head s))"
  shows "p \<notin> ns_ups (server_head s')"
  using run
proof (cases rule: nameserver_failed_cases)
  case (already n)
  show ?thesis
  proof
    assume "p \<in> ns_ups (server_head s')"
    with already(3) obtain m where m: "m \<in> set (server_head s)" "state m" "ns_ptr m = p"
      unfolding ns_ups_def by blast
    from find_ns_in [OF already(1)] have "n \<in> set (server_head s)" "ns_ptr n = p" by simp_all
    with m dist have "m = n" using distinct_only [of "server_head s" m n] by simp
    with m already(2) show False by simp
  qed
next
  case (marked n)
  have "\<forall>m \<in> set (server_head s'). ns_ptr m = p \<longrightarrow> \<not> state m"
  proof (rule image_at [where g = "\<lambda>n. if ns_ptr n = p
            then n\<lparr>state := False, failed_times := 1,
                   probe_timer := Some (global_nameserver_timeouts ! 0)\<rparr> else n"])
    from marked(3) show "set (server_head s') = (\<lambda>n. if ns_ptr n = p
            then n\<lparr>state := False, failed_times := 1,
                   probe_timer := Some (global_nameserver_timeouts ! 0)\<rparr> else n) ` set (server_head s)"
      by (simp only: set_map)
    show "ns_ptr (if ns_ptr n = p
            then n\<lparr>state := False, failed_times := 1,
                   probe_timer := Some (global_nameserver_timeouts ! 0)\<rparr> else n) = ns_ptr n" for n
      by simp
    show "\<forall>n \<in> set (server_head s). ns_ptr n = p \<longrightarrow> \<not> state (if ns_ptr n = p
            then n\<lparr>state := False, failed_times := 1,
                   probe_timer := Some (global_nameserver_timeouts ! 0)\<rparr> else n)"
      by simp
  qed
  then show ?thesis unfolding ns_ups_def by blast
qed











lemma drop_ns_search:
  assumes "drop_ns a = drop_ns b"
  shows "search_state a = search_state b"
  using assms [THEN arg_cong, of search_state] by (simp add: drop_ns_def)

lemma reply_callback_type:
  assumes "reply_callback i ttl err rep s = Inr s'"
  shows "request_type (req_head s ! i) = TYPE_A \<or> request_type (req_head s ! i) = TYPE_PTR"
  using assms by (auto simp: reply_callback_def Let_def split: if_splits)

text \<open>The failure path for a lookup of the user that is not part of a search.\<close>

lemma reply_handle_fail_plain:
  assumes i: "i < length (req_head s)"
    and nosearch: "search_state (req_head s ! i) = None"
    and cb: "user_callback (req_head s ! i) = user_fn f"
    and run: "reply_handle_fail i err s = Inr s'"
  shows "callbacks s' = callbacks s @
           [\<lparr>cb_fn = f, cb_result = err, cb_type = 0, cb_count = 0, cb_ttl = 0,
             cb_data = NoData, cb_arg = user_pointer (req_head s ! i)\<rparr>]"
    and "global_requests_waiting s = 0 \<Longrightarrow>
           server_head s' = server_head s \<and> global_good_nameservers s' = global_good_nameservers s"
proof -
  let ?ev = "\<lparr>cb_fn = f, cb_result = err, cb_type = 0, cb_count = 0, cb_ttl = 0,
             cb_data = NoData, cb_arg = user_pointer (req_head s ! i)\<rparr>"
  from run nosearch obtain s1 where c1: "reply_callback i 0 err None s = Inr s1"
    and fin: "request_finished i s1 = Inr s'"
    by (auto simp: reply_handle_fail_def Let_def bnd_eq_Inr)
  note ty = reply_callback_type [OF c1]
  from i cb ty have "reply_callback i 0 err None s = Inr (s\<lparr>callbacks := callbacks s @ [?ev]\<rparr>)"
    by (auto simp: reply_callback_def call_user_callback_def Let_def)
  with c1 have s1: "s1 = s\<lparr>callbacks := callbacks s @ [?ev]\<rparr>" by simp
  from request_finished_callbacks [OF fin] s1
  show "callbacks s' = callbacks s @ [?ev]" by simp
  show "server_head s' = server_head s \<and> global_good_nameservers s' = global_good_nameservers s"
    if w: "global_requests_waiting s = 0"
  proof -
    from fin obtain s2 where
      a: "search_state_decref (search_state (req_head s1 ! i))
            (s1\<lparr>req_head := take i (req_head s1) @ drop (Suc i) (req_head s1)\<rparr>) = Inr s2"
      and b: "evdns_requests_pump_waiting_queue
                (s2\<lparr>global_requests_inflight := global_requests_inflight s2 - 1\<rparr>) = Inr s'"
      by (auto simp: request_finished_def search_request_finished_def Let_def bnd_eq_Inr
          split: if_splits)
    from a s1 nosearch have s2: "s2 = s1\<lparr>req_head := take i (req_head s1) @ drop (Suc i) (req_head s1)\<rparr>"
      by (simp add: search_state_decref_def)
    from s2 s1 w have "global_requests_waiting
        (s2\<lparr>global_requests_inflight := global_requests_inflight s2 - 1\<rparr>) = 0"
      by simp
    with b have "s' = s2\<lparr>global_requests_inflight := global_requests_inflight s2 - 1\<rparr>"
      by (simp add: evdns_requests_pump_waiting_queue.simps
                      [of "s2\<lparr>global_requests_inflight := global_requests_inflight s2 - 1\<rparr>"])
    with s2 s1 show ?thesis by simp
  qed
qed

lemma server_errors_fail:
  fixes fl :: u16
  assumes "fl AND 0x0200 = 0" and "fl AND 0x000f \<in> {2, 4, 5}"
  shows "reply_error fl \<in> {DNS_ERR_SERVERFAILED, DNS_ERR_NOTIMPL, DNS_ERR_REFUSED}"
    and "reply_error fl \<noteq> DNS_ERR_NONE" and "reply_error fl \<noteq> DNS_ERR_NOTEXIST"
  using assms by (simp_all add: reply_error_server)

subsection \<open>The claims\<close>

text \<open>
  C2. The claim is that \<open>evdns_resolv_conf_parse\<close> returns 1 when the file cannot be
  opened, having installed the defaults. The code installs the defaults and returns 0:
  whatever the flags, the host name and the state, the result is never 1; with all flags
  set it is 0, leaving the loopback nameserver and the search suffix taken from the host
  name.
\<close>

theorem resolv_conf_open_failure_returns_0:
  "(case evdns_resolv_conf_parse aton hostname fl OpenFails s of
      Inl e \<Rightarrow> True | Inr (r, s1) \<Rightarrow> r = 0)
   \<and> (case evdns_resolv_conf_parse loopback (Some ''host.example.org'') 7 OpenFails initial of
         Inl e \<Rightarrow> False
       | Inr (r, s1) \<Rightarrow>
           r = 0 \<and> map address (server_head s1) = [0x0100007f]
           \<and> (case global_search_state s1 of
                 None \<Rightarrow> False
               | Some p \<Rightarrow> map_option head (search_states s1 p) = Some [''example.org'']))"
proof
  show "case evdns_resolv_conf_parse aton hostname fl OpenFails s of
          Inl e \<Rightarrow> True | Inr (r, s1) \<Rightarrow> r = 0"
    by (cases "evdns_resolv_set_defaults aton hostname fl s")
       (simp_all add: evdns_resolv_conf_parse_def)
  show "case evdns_resolv_conf_parse loopback (Some ''host.example.org'') 7 OpenFails initial of
          Inl e \<Rightarrow> False
        | Inr (r, s1) \<Rightarrow>
            r = 0 \<and> map address (server_head s1) = [0x0100007f]
            \<and> (case global_search_state s1 of
                  None \<Rightarrow> False
                | Some p \<Rightarrow> map_option head (search_states s1 p) = Some [''example.org''])"
    by code_simp
qed

text \<open>
  C3. The claim is that \<open>name_parse\<close> terminates on every packet and returns an error
  on a pointer loop and on a label longer than 63 bytes. On the two-byte packet
  \<open>c0 00\<close>, a pointer to itself, the loop never returns. A length byte of 64 is
  taken for a pointer as well, because the test is \<open>label_len & 0xc0\<close>: the packet
  \<open>40 02 00\<close> is decoded as the empty name.
\<close>

theorem name_parse_pointer_loop_never_returns:
  "name_parse [0xc0, 0] 0 256 = None \<and> name_parse [0x40, 2, 0] 0 256 = Some (Some (2, []))"
proof
  have step: "name_parse_step [0xc0, 0] 256 (0, Some 2, []) = Continue (0, Some 2, [])"
    by (simp add: name_parse_step_def)
  have never: "\<not> (p = [0xc0, 0] \<and> n = 256 \<and> st = (0, Some 2, []))"
    if "name_parse_loop p n st = Some y" for p n st y
    using that
  proof (rule name_parse_loop.raw_induct
      [where P = "\<lambda>p n st y. \<not> (p = [0xc0, 0] \<and> n = 256 \<and> st = (0, Some 2, []))", rotated])
    fix f p n st y
    assume IH: "\<And>p n st y. f p n st = Some y
        \<Longrightarrow> \<not> (p = [0xc0, 0] \<and> n = 256 \<and> st = (0, Some 2, []))"
      and body: "(case name_parse_step p n st of Stop r \<Rightarrow> Some r
                  | Continue st' \<Rightarrow> f p n st') = Some y"
    show "\<not> (p = [0xc0, 0] \<and> n = 256 \<and> st = (0, Some 2, []))"
    proof
      assume eq: "p = [0xc0, 0] \<and> n = 256 \<and> st = (0, Some 2, [])"
      with body step have "f p n st = Some y" by simp
      from IH [OF this] eq show False by simp
    qed
  qed
  have "name_parse_loop [0xc0, 0] 256 (0, Some 2, []) = None"
  proof (cases "name_parse_loop [0xc0, 0] 256 (0, Some 2, [])")
    case None
    then show ?thesis .
  next
    case (Some y)
    from never [OF Some] show ?thesis by simp
  qed
  moreover have "name_parse_step [0xc0, 0] 256 (0, None, []) = Continue (0, Some 2, [])"
    by (simp add: name_parse_step_def)
  ultimately show "name_parse [0xc0, 0] 0 256 = None"
    by (simp add: name_parse_def name_parse_loop.simps [of _ _ "(0, None, [])"])
  show "name_parse [0x40, 2, 0] 0 256 = Some (Some (2, []))"
    by code_simp
qed

text \<open>
  C5. The claim is that every request on the waiting list has the transaction id 0xffff,
  and that suspending resets the id of each inflight request to it. Suspending writes 0
  instead, and a lookup made while no nameserver is known waits with the id it was given:
  after the suspension the waiting requests \<open>b\<close>, \<open>a\<close>, \<open>c\<close>, \<open>d\<close> have the ids
  0, 0, 11, 12 (and no nameserver).
\<close>

theorem suspended_requests_have_id_0:
  "in_final suspended (\<lambda>s. map trans_id (req_waiting_head s)) = Some [0, 0, 11, 12]
   \<and> in_final suspended (\<lambda>s. map ns (req_waiting_head s)) = Some [None, None, None, None]
   \<and> in_final suspended (\<lambda>s. map user_pointer (req_waiting_head s)) = Some [2, 1, 3, 4]"
  by code_simp

text \<open>
  C9. The claim is that \<open>transaction_id_pick\<close> never returns the id of an inflight
  request. The scan stops at a match with \<open>req\<close> still at the head when the head itself
  matches, and that is the test for "not found": with one request in flight under id 5
  and the id source yielding 5, the pick is 5, and after the second lookup both inflight
  requests have the id 5.
\<close>

theorem transaction_id_pick_returns_id_of_head:
  "transaction_id_loop [5] [\<lparr>rid = 2, request = [], reissue_count = 0, tx_count = 1,
       request_type = TYPE_A, user_pointer = 1, user_callback = user_fn 0, ns = Some 1,
       search_index = 0, search_state = None, search_origname = None, search_flags = 0,
       timeout_event = True, trans_id = 5, transmit_me = False\<rparr>] = Some (5, [])
   \<and> in_final two_lookups_same_id (\<lambda>s. map trans_id (req_head s)) = Some [5, 5]"
  by code_simp

text \<open>
  C10. A reply whose transaction id matches no request on the inflight list makes
  \<open>reply_parse\<close> return -1 with the state as it was: no callback is made, no
  nameserver, list or counter changes.
\<close>

theorem reply_parse_unknown_id:
  assumes "12 \<le> length packet"
    and "\<forall>r \<in> set (req_head s). trans_id r \<noteq> ucast (packet ! 0) * 256 + ucast (packet ! 1)"
  shows "reply_parse packet s = Some (Inr (- 1, s))"
proof -
  from assms(1) obtain fl questions answers j where
    "reply_header packet = Some (ucast (packet ! 0) * 256 + ucast (packet ! 1), fl, questions, answers, j)"
    by (simp add: reply_header_def GET16_def)
  moreover from assms(2) have
    "request_find_from_trans_id (ucast (packet ! 0) * 256 + ucast (packet ! 1)) s = None"
    by (simp add: request_find_from_trans_id_def find_pos_None)
  ultimately show ?thesis
    by (simp add: reply_parse_def)
qed

theorem reply_parse_unknown_id_witness:
  "in_final two_inflight_two_waiting
     (\<lambda>s. 12 \<le> length [0 :: u8, 99, 0x80, 0, 0, 0, 0, 0, 0, 0, 0, 0]
        \<and> (\<forall>r \<in> set (req_head s). trans_id r \<noteq> 99)
        \<and> reply_parse [0, 99, 0x80, 0, 0, 0, 0, 0, 0, 0, 0, 0] s = Some (Inr (- 1, s)))
   = Some True"
proof -
  have "in_final two_inflight_two_waiting (\<lambda>s. map trans_id (req_head s)) = Some [13, 14]"
    by code_simp
  then obtain s where s: "two_inflight_two_waiting = Inr s"
    and ids: "map trans_id (req_head s) = [13, 14]"
    by (auto simp: in_final_Some)
  have img: "trans_id ` set (req_head s) = {13, 14}"
    using ids [THEN arg_cong, of set] by simp
  have fresh: "\<forall>r \<in> set (req_head s). trans_id r \<noteq> 99"
  proof
    fix r
    assume "r \<in> set (req_head s)"
    then have "trans_id r \<in> trans_id ` set (req_head s)"
      by (rule imageI)
    with img have "trans_id r \<in> {13, 14}"
      by simp
    then show "trans_id r \<noteq> 99"
      by auto
  qed
  have len: "12 \<le> length [0 :: u8, 99, 0x80, 0, 0, 0, 0, 0, 0, 0, 0, 0]"
    by simp
  from fresh len reply_parse_unknown_id [of "[0, 99, 0x80, 0, 0, 0, 0, 0, 0, 0, 0, 0]" s]
  show ?thesis
    by (simp add: in_final_def s)
qed

text \<open>
  C1. The claim is that suspending keeps the relative order of the inflight requests and
  puts them before the waiting ones, so that inflight \<open>a, b\<close> and waiting \<open>c, d\<close>
  are sent as \<open>a, b, c, d\<close> after resuming. Each inflight request is put in front of
  the waiting list in turn, so the inflight requests do come first, but in reverse: the
  structs of \<open>a, b, c, d\<close> have the addresses 4, 5, 1, 2, and the datagrams sent on
  resuming are those of 5, 4, 1, 2.
\<close>

theorem suspend_resume_order_counterexample:
  "in_final two_inflight_two_waiting (\<lambda>s. (map rid (req_head s), map rid (req_waiting_head s)))
     = Some ([4, 5], [1, 2])
   \<and> in_final suspended (\<lambda>s. map rid (req_waiting_head s)) = Some [5, 4, 1, 2]
   \<and> in_final resumed (\<lambda>s. map fst (drop 2 (sent s))) = Some [5, 4, 1, 2]
   \<and> in_final resumed (\<lambda>s. map fst (drop 2 (sent s))) \<noteq> Some [4, 5, 1, 2]"
  by code_simp

text \<open>
  C1, as amended. When there is a nameserver to clear, suspending leaves the inflight
  list empty and the waiting list holding the formerly inflight requests, reset, in the
  reverse of their order, followed by the formerly waiting requests in their order; for
  inflight \<open>a, b\<close> and waiting \<open>c, d\<close> the datagrams sent on resuming are those of
  \<open>b, a, c, d\<close>.
\<close>

theorem suspend_puts_inflight_first_reversed:
  "(server_head s \<noteq> [] \<longrightarrow>
      req_waiting_head (snd (evdns_clear_nameservers_and_suspend s))
        = map suspend_request (rev (req_head s)) @ req_waiting_head s
      \<and> req_head (snd (evdns_clear_nameservers_and_suspend s)) = [])
   \<and> in_final resumed (\<lambda>s. map fst (drop 2 (sent s))) = Some [5, 4, 1, 2]"
proof
  show "server_head s \<noteq> [] \<longrightarrow>
      req_waiting_head (snd (evdns_clear_nameservers_and_suspend s))
        = map suspend_request (rev (req_head s)) @ req_waiting_head s
      \<and> req_head (snd (evdns_clear_nameservers_and_suspend s)) = []"
    by (simp add: evdns_clear_nameservers_and_suspend_def foldl_suspend_one Let_def)
  show "in_final resumed (\<lambda>s. map fst (drop 2 (sent s))) = Some [5, 4, 1, 2]"
    by code_simp
qed

theorem suspend_puts_inflight_first_reversed_witness:
  "in_final two_inflight_two_waiting
     (\<lambda>s. server_head s \<noteq> []
        \<and> map user_pointer (req_head s) = [1, 2]
        \<and> map user_pointer (req_waiting_head s) = [3, 4]
        \<and> map user_pointer (req_waiting_head (snd (evdns_clear_nameservers_and_suspend s)))
            = [2, 1, 3, 4]) = Some True"
proof -
  have "in_final two_inflight_two_waiting
          (\<lambda>s. (server_head s \<noteq> [], map user_pointer (req_head s),
                map user_pointer (req_waiting_head s))) = Some (True, [1, 2], [3, 4])"
    by code_simp
  then obtain s where s: "two_inflight_two_waiting = Inr s"
    and srv: "server_head s \<noteq> []"
    and infl: "map user_pointer (req_head s) = [1, 2]"
    and wait: "map user_pointer (req_waiting_head s) = [3, 4]"
    by (auto simp: in_final_Some)
  have keep: "user_pointer \<circ> suspend_request = user_pointer"
    by (rule ext) (simp add: suspend_request_def)
  from srv suspend_puts_inflight_first_reversed [of s]
  have "req_waiting_head (snd (evdns_clear_nameservers_and_suspend s))
          = map suspend_request (rev (req_head s)) @ req_waiting_head s"
    by simp
  then have "map user_pointer (req_waiting_head (snd (evdns_clear_nameservers_and_suspend s)))
          = rev (map user_pointer (req_head s)) @ map user_pointer (req_waiting_head s)"
    by (simp add: keep rev_map)
  with infl wait have "map user_pointer (req_waiting_head (snd (evdns_clear_nameservers_and_suspend s)))
          = [2, 1, 3, 4]"
    by simp
  with srv infl wait show ?thesis
    by (simp add: in_final_def s)
qed

text \<open>
  C4. The claim is that no insertion into the inflight list, the probe of a nameserver
  included, takes the inflight counter above the cap. The probe is put on the inflight
  list whatever the counter says: with 64 lookups in flight and the cap at 64, the probe
  makes the counter 65.
\<close>

theorem probe_exceeds_cap_counterexample:
  "(global_requests_inflight crowded, global_max_requests_inflight crowded,
    length (req_head crowded)) = (64, 64, 64)
   \<and> in_final crowded_probed
     (\<lambda>s. (global_requests_inflight s, global_max_requests_inflight s, length (req_head s)))
   = Some (65, 64, 65)"
  by code_simp

text \<open>
  C4, as amended. Every operation that puts a request on the inflight list, other than
  the probe of a nameserver, keeps the inflight counter at or below the cap: promotion
  from the waiting queue (\<open>evdns_requests_pump_waiting_queue\<close>, also as run by
  \<open>evdns_resume\<close> and \<open>request_finished\<close>), and submission by
  \<open>evdns_resolve_ipv4\<close>, \<open>evdns_resolve_reverse\<close>, \<open>search_request_new\<close> and
  \<open>search_try_next\<close>. The probe is appended to the inflight list whatever the cap: the
  list grows by the probe request, the waiting list and its counter stay as they are, and
  the inflight counter goes up by one.
\<close>

theorem inflight_cap_kept_except_by_probe:
  "(global_requests_inflight s \<le> global_max_requests_inflight s \<longrightarrow>
      (evdns_requests_pump_waiting_queue s = Inr s1 \<longrightarrow>
         global_requests_inflight s1 \<le> global_max_requests_inflight s1)
    \<and> (evdns_resume s = Inr (r2, s2) \<longrightarrow>
         global_requests_inflight s2 \<le> global_max_requests_inflight s2)
    \<and> (request_finished i s = Inr s3 \<longrightarrow>
         global_requests_inflight s3 \<le> global_max_requests_inflight s3)
    \<and> (evdns_resolve_ipv4 nm fl cb arg s = Inr (r4, s4) \<longrightarrow>
         global_requests_inflight s4 \<le> global_max_requests_inflight s4)
    \<and> (evdns_resolve_reverse a fl cb arg s = Inr (r5, s5) \<longrightarrow>
         global_requests_inflight s5 \<le> global_max_requests_inflight s5)
    \<and> (search_request_new ty nm fl cb arg s = Inr (r6, s6) \<longrightarrow>
         global_requests_inflight s6 \<le> global_max_requests_inflight s6)
    \<and> (search_try_next i s = Inr (r7, s7) \<longrightarrow>
         global_requests_inflight s7 \<le> global_max_requests_inflight s7))
   \<and> (nameserver_send_probe p s = Inr s8 \<longrightarrow>
        length (req_head s8) = length (req_head s) + 1
      \<and> map rid (req_head s8) = map rid (req_head s) @ [rid (last (req_head s8))]
      \<and> user_callback (last (req_head s8)) = nameserver_probe_callback_fn
      \<and> user_pointer (last (req_head s8)) = p
      \<and> req_waiting_head s8 = req_waiting_head s
      \<and> global_requests_waiting s8 = global_requests_waiting s
      \<and> global_requests_inflight s8 = global_requests_inflight s + 1
      \<and> global_max_requests_inflight s8 = global_max_requests_inflight s)"
proof (intro conjI impI)
  assume run: "nameserver_send_probe p s = Inr s8"
  from probe_inserted(1) [OF run] obtain r where
    r: "map core (req_head s8) = map core (req_head s) @ [r]"
    and cb: "user_callback r = nameserver_probe_callback_fn" and up: "user_pointer r = p"
    by blast
  note app = core_appended [OF r]
  show "length (req_head s8) = length (req_head s) + 1" by (rule app(1))
  show "map rid (req_head s8) = map rid (req_head s) @ [rid (last (req_head s8))]"
    by (rule app(2))
  show "user_callback (last (req_head s8)) = nameserver_probe_callback_fn"
    using app(3) cb by simp
  show "user_pointer (last (req_head s8)) = p"
    using app(4) up by simp
  show "req_waiting_head s8 = req_waiting_head s" by (rule probe_inserted(2) [OF run])
  show "global_requests_waiting s8 = global_requests_waiting s"
    by (rule probe_inserted(3) [OF run])
  show "global_requests_inflight s8 = global_requests_inflight s + 1"
    using probe_counts [OF run] by simp
  show "global_max_requests_inflight s8 = global_max_requests_inflight s"
    using probe_counts [OF run] by simp
next
  assume inv: "global_requests_inflight s \<le> global_max_requests_inflight s"
  show "global_requests_inflight s1 \<le> global_max_requests_inflight s1"
    if "evdns_requests_pump_waiting_queue s = Inr s1"
    using pump_cap [OF that inv] by simp
  show "global_requests_inflight s2 \<le> global_max_requests_inflight s2"
    if "evdns_resume s = Inr (r2, s2)"
    by (rule resume_cap [OF that inv])
  show "global_requests_inflight s3 \<le> global_max_requests_inflight s3"
    if "request_finished i s = Inr s3"
    by (rule request_finished_cap [OF that inv])
  show "global_requests_inflight s4 \<le> global_max_requests_inflight s4"
    if "evdns_resolve_ipv4 nm fl cb arg s = Inr (r4, s4)"
    by (rule resolve_cap [OF that inv])
  show "global_requests_inflight s5 \<le> global_max_requests_inflight s5"
    if "evdns_resolve_reverse a fl cb arg s = Inr (r5, s5)"
    by (rule reverse_cap [OF that inv])
  show "global_requests_inflight s6 \<le> global_max_requests_inflight s6"
    if "search_request_new ty nm fl cb arg s = Inr (r6, s6)"
    by (rule search_request_new_cap [OF that inv])
  show "global_requests_inflight s7 \<le> global_max_requests_inflight s7"
    if "search_try_next i s = Inr (r7, s7)"
    by (rule search_try_next_cap [OF that inv])
qed

text \<open>
  The amended C4 at a resolver with a searching lookup in flight, a lookup waiting and
  one nameserver (the struct at address 2).
\<close>

theorem inflight_cap_kept_except_by_probe_witness:
  "in_final searching
     (\<lambda>w. global_requests_inflight w \<le> global_max_requests_inflight w
        \<and> (\<exists>s1. evdns_requests_pump_waiting_queue w = Inr s1
              \<and> global_requests_inflight s1 \<le> global_max_requests_inflight s1)
        \<and> (\<exists>r s2. evdns_resume w = Inr (r, s2)
              \<and> global_requests_inflight s2 \<le> global_max_requests_inflight s2)
        \<and> (\<exists>s3. request_finished 0 w = Inr s3
              \<and> global_requests_inflight s3 \<le> global_max_requests_inflight s3)
        \<and> (\<exists>r s4. evdns_resolve_ipv4 ''x'' 0 (user_fn 0) 5 w = Inr (r, s4)
              \<and> global_requests_inflight s4 \<le> global_max_requests_inflight s4)
        \<and> (\<exists>r s5. evdns_resolve_reverse (Some 0x0100007f) 0 (user_fn 0) 5 w = Inr (r, s5)
              \<and> global_requests_inflight s5 \<le> global_max_requests_inflight s5)
        \<and> (\<exists>r s6. search_request_new TYPE_A ''x'' 0 (user_fn 0) 5 w = Inr (r, s6)
              \<and> global_requests_inflight s6 \<le> global_max_requests_inflight s6)
        \<and> (\<exists>r s7. search_try_next 0 w = Inr (r, s7)
              \<and> global_requests_inflight s7 \<le> global_max_requests_inflight s7)
        \<and> (\<exists>s8. nameserver_send_probe 2 w = Inr s8
              \<and> length (req_head s8) = length (req_head w) + 1
              \<and> user_callback (last (req_head s8)) = nameserver_probe_callback_fn
              \<and> req_waiting_head s8 = req_waiting_head w
              \<and> global_requests_inflight s8 = global_requests_inflight w + 1))
   = Some True"
proof -
  have "in_final searching
     (\<lambda>w. (global_requests_inflight w \<le> global_max_requests_inflight w,
           succeeds (evdns_requests_pump_waiting_queue w),
           succeeds (evdns_resume w),
           succeeds (request_finished 0 w),
           succeeds (evdns_resolve_ipv4 ''x'' 0 (user_fn 0) 5 w),
           succeeds (evdns_resolve_reverse (Some 0x0100007f) 0 (user_fn 0) 5 w),
           succeeds (search_request_new TYPE_A ''x'' 0 (user_fn 0) 5 w),
           succeeds (search_try_next 0 w),
           succeeds (nameserver_send_probe 2 w)))
     = Some (True, True, True, True, True, True, True, True, True)"
    by code_simp
  then obtain w where w: "searching = Inr w"
    and inv: "global_requests_inflight w \<le> global_max_requests_inflight w"
    and a1: "succeeds (evdns_requests_pump_waiting_queue w)"
    and a2: "succeeds (evdns_resume w)"
    and a3: "succeeds (request_finished 0 w)"
    and a4: "succeeds (evdns_resolve_ipv4 ''x'' 0 (user_fn 0) 5 w)"
    and a5: "succeeds (evdns_resolve_reverse (Some 0x0100007f) 0 (user_fn 0) 5 w)"
    and a6: "succeeds (search_request_new TYPE_A ''x'' 0 (user_fn 0) 5 w)"
    and a7: "succeeds (search_try_next 0 w)"
    and a8: "succeeds (nameserver_send_probe 2 w)"
    by (auto simp: in_final_Some)
  from a1 obtain s1 where s1: "evdns_requests_pump_waiting_queue w = Inr s1"
    by (rule succeedsE)
  from a2 obtain r2 s2 where s2: "evdns_resume w = Inr (r2, s2)"
    by (auto elim!: succeedsE)
  from a3 obtain s3 where s3: "request_finished 0 w = Inr s3"
    by (rule succeedsE)
  from a4 obtain r4 s4 where s4: "evdns_resolve_ipv4 ''x'' 0 (user_fn 0) 5 w = Inr (r4, s4)"
    by (auto elim!: succeedsE)
  from a5 obtain r5 s5 where
    s5: "evdns_resolve_reverse (Some 0x0100007f) 0 (user_fn 0) 5 w = Inr (r5, s5)"
    by (auto elim!: succeedsE)
  from a6 obtain r6 s6 where
    s6: "search_request_new TYPE_A ''x'' 0 (user_fn 0) 5 w = Inr (r6, s6)"
    by (auto elim!: succeedsE)
  from a7 obtain r7 s7 where s7: "search_try_next 0 w = Inr (r7, s7)"
    by (auto elim!: succeedsE)
  from a8 obtain s8 where s8: "nameserver_send_probe 2 w = Inr s8"
    by (rule succeedsE)
  from inflight_cap_kept_except_by_probe
         [of w s1 r2 s2 0 s3 "''x''" 0 "user_fn 0" 5 r4 s4 "Some 0x0100007f" r5 s5 TYPE_A
             r6 s6 r7 s7 2 s8]
       inv s1 s2 s3 s4 s5 s6 s7 s8
  have "global_requests_inflight s1 \<le> global_max_requests_inflight s1"
    "global_requests_inflight s2 \<le> global_max_requests_inflight s2"
    "global_requests_inflight s3 \<le> global_max_requests_inflight s3"
    "global_requests_inflight s4 \<le> global_max_requests_inflight s4"
    "global_requests_inflight s5 \<le> global_max_requests_inflight s5"
    "global_requests_inflight s6 \<le> global_max_requests_inflight s6"
    "global_requests_inflight s7 \<le> global_max_requests_inflight s7"
    "length (req_head s8) = length (req_head w) + 1"
    "user_callback (last (req_head s8)) = nameserver_probe_callback_fn"
    "req_waiting_head s8 = req_waiting_head w"
    "global_requests_inflight s8 = global_requests_inflight w + 1"
    by blast+
  with inv s1 s2 s3 s4 s5 s6 s7 s8 show ?thesis
    by (simp add: in_final_def w)
qed

text \<open>
  C7. The claim is that a reply with RCODE ServFail, NotImpl or Refused always marks
  the nameserver as failed. The code does so only while the request may still be
  reissued. The first nameserver answers a lookup with a server failure: it is marked as
  failed and the lookup moves to the second nameserver with \<open>reissue_count\<close> 1, which
  is \<open>global_max_reissues\<close>. The timeout of the lookup fires and sends it to the second
  nameserver. The second nameserver answers with a server failure: it stays up, and the
  error goes to the callback.
\<close>

theorem server_error_without_reissue_counterexample:
  "in_final first_servfail
     (\<lambda>s. (map (\<lambda>r. (ns r, reissue_count r)) (req_head s),
           map (\<lambda>n. (ns_ptr n, state n)) (server_head s), global_max_reissues s))
     = Some ([(Some 2, 1)], [(1, False), (2, True)], 1)
   \<and> in_final resent_to_second
     (\<lambda>s. (map (\<lambda>r. (rid r, ns r, reissue_count r, tx_count r)) (req_head s), sent s,
           map (\<lambda>n. (ns_ptr n, state n)) (server_head s)))
     = Some ([(3, Some 2, 1, 1)], [(3, 1), (3, 2)], [(1, False), (2, True)])
   \<and> in_final second_servfail
     (\<lambda>s. (map (\<lambda>n. (ns_ptr n, state n)) (server_head s), map cb_result (callbacks s),
           length (req_head s)))
     = Some ([(1, False), (2, True)], [DNS_ERR_SERVERFAILED], 0)"
  by code_simp

text \<open>
  C7, as amended. For a reply with RCODE ServFail, NotImpl or Refused and without the
  truncation bit, where nameserver structs have distinct addresses. While the request's
  \<open>reissue_count\<close> is below \<open>global_max_reissues\<close>, its nameserver is marked as failed:
  it is down in the state that \<open>reply_handle\<close> returns. If \<open>nameserver_pick\<close> then
  returns a different server, the request is reissued (\<open>tx_count\<close> 0, \<open>transmit_me\<close>
  set, \<open>reissue_count\<close> incremented, assigned to that server) and no user callback is
  made; if it returns the same server, the reissue is abandoned and the error goes the
  way of every failure. When \<open>reissue_count\<close> has reached the limit, the error goes that
  way at once, from the state as it is; with nothing waiting, the nameservers and the
  count of good ones are left unchanged. That way ends, for a lookup of the user that is
  not part of a search, in one call of the user callback with the error.
\<close>

theorem server_error_reply:
  fixes fl :: u16
  assumes i: "i < length (req_head s)" and tc: "fl AND 0x0200 = 0"
    and rc: "fl AND 0x000f \<in> {2, 4, 5}"
    and dist: "distinct (map ns_ptr (server_head s))"
  shows
    "reply_error fl \<in> {DNS_ERR_SERVERFAILED, DNS_ERR_NOTIMPL, DNS_ERR_REFUSED}
     \<and> (reissue_count (req_head s ! i) < global_max_reissues s \<longrightarrow>
        ns (req_head s ! i) = Some p \<longrightarrow> nameserver_failed p s = Inr s1 \<longrightarrow>
        nameserver_pick s1 = Inr (q, s2) \<longrightarrow>
          (q \<noteq> ns (req_head s1 ! i) \<longrightarrow>
             (\<exists>s'. reply_handle i fl ttl rep s = Inr s' \<and> ns_down p s'
                \<and> callbacks s' = callbacks s
                \<and> map rid (req_head s') = map rid (req_head s)
                \<and> ns (req_head s' ! i) = q \<and> tx_count (req_head s' ! i) = 0
                \<and> transmit_me (req_head s' ! i)
                \<and> reissue_count (req_head s' ! i) = reissue_count (req_head s ! i) + 1))
        \<and> (q = ns (req_head s1 ! i) \<longrightarrow>
             reply_handle i fl ttl rep s
               = reply_handle_fail i (reply_error fl) (upd_req i (\<lambda>r. r\<lparr>ns := q\<rparr>) s2)
             \<and> (\<forall>s'. reply_handle i fl ttl rep s = Inr s' \<longrightarrow>
                  ns_down p s'
                  \<and> (search_state (req_head s ! i) = None \<longrightarrow>
                     user_callback (req_head s ! i) = user_fn f \<longrightarrow>
                     callbacks s' = callbacks s @
                       [\<lparr>cb_fn = f, cb_result = reply_error fl, cb_type = 0, cb_count = 0,
                         cb_ttl = 0, cb_data = NoData,
                         cb_arg = user_pointer (req_head s ! i)\<rparr>]))))
     \<and> (\<not> reissue_count (req_head s ! i) < global_max_reissues s \<longrightarrow>
          reply_handle i fl ttl rep s = reply_handle_fail i (reply_error fl) s
          \<and> (\<forall>s'. reply_handle i fl ttl rep s = Inr s' \<longrightarrow>
               search_state (req_head s ! i) = None \<longrightarrow>
               user_callback (req_head s ! i) = user_fn f \<longrightarrow>
                 callbacks s' = callbacks s @
                   [\<lparr>cb_fn = f, cb_result = reply_error fl, cb_type = 0, cb_count = 0,
                     cb_ttl = 0, cb_data = NoData, cb_arg = user_pointer (req_head s ! i)\<rparr>]
                 \<and> (global_requests_waiting s = 0 \<longrightarrow>
                      server_head s' = server_head s
                      \<and> global_good_nameservers s' = global_good_nameservers s)))"
proof (intro conjI impI allI)
  note eq = reply_handle_server_error [OF i tc rc, of ttl rep]
  note err = server_errors_fail [OF tc rc]
  show "reply_error fl \<in> {DNS_ERR_SERVERFAILED, DNS_ERR_NOTIMPL, DNS_ERR_REFUSED}"
    by (rule err(1))
  show "reply_handle i fl ttl rep s = reply_handle_fail i (reply_error fl) s"
    if "\<not> reissue_count (req_head s ! i) < global_max_reissues s"
    using that eq by simp
  show "callbacks s' = callbacks s @
                   [\<lparr>cb_fn = f, cb_result = reply_error fl, cb_type = 0, cb_count = 0,
                     cb_ttl = 0, cb_data = NoData, cb_arg = user_pointer (req_head s ! i)\<rparr>]"
    if "\<not> reissue_count (req_head s ! i) < global_max_reissues s"
      "reply_handle i fl ttl rep s = Inr s'"
      "search_state (req_head s ! i) = None" "user_callback (req_head s ! i) = user_fn f"
    for s'
  proof -
    from that(1,2) eq have "reply_handle_fail i (reply_error fl) s = Inr s'" by simp
    from reply_handle_fail_plain(1) [OF i that(3) that(4) this] show ?thesis .
  qed
  show "server_head s' = server_head s"
    if "\<not> reissue_count (req_head s ! i) < global_max_reissues s"
      "reply_handle i fl ttl rep s = Inr s'"
      "search_state (req_head s ! i) = None" "user_callback (req_head s ! i) = user_fn f"
      "global_requests_waiting s = 0"
    for s'
  proof -
    from that(1,2) eq have "reply_handle_fail i (reply_error fl) s = Inr s'" by simp
    from reply_handle_fail_plain(2) [OF i that(3) that(4) this that(5)] show ?thesis by simp
  qed
  show "global_good_nameservers s' = global_good_nameservers s"
    if "\<not> reissue_count (req_head s ! i) < global_max_reissues s"
      "reply_handle i fl ttl rep s = Inr s'"
      "search_state (req_head s ! i) = None" "user_callback (req_head s ! i) = user_fn f"
      "global_requests_waiting s = 0"
    for s'
  proof -
    from that(1,2) eq have "reply_handle_fail i (reply_error fl) s = Inr s'" by simp
    from reply_handle_fail_plain(2) [OF i that(3) that(4) this that(5)] show ?thesis by simp
  qed
  assume lt: "reissue_count (req_head s ! i) < global_max_reissues s"
    and ns: "ns (req_head s ! i) = Some p"
    and failed: "nameserver_failed p s = Inr s1"
    and pick: "nameserver_pick s1 = Inr (q, s2)"
  let ?s2' = "upd_req i (\<lambda>r. r\<lparr>ns := q\<rparr>) s2"
  have head: "reply_handle i fl ttl rep s =
      bnd (request_reissue i s1) (\<lambda>(r, s2).
          if r = 0 then Inr s2 else reply_handle_fail i (reply_error fl) s2)"
    using eq lt ns failed by (simp add: with_ns_def)
  note reqs = drop_ns_nth [OF nameserver_failed_reqs [OF failed] i]
  note at = drop_ns_at [OF nameserver_failed_reqs [OF failed] i]
  note r2 = nameserver_pick_reqs [OF pick]
  from i reqs(1) r2 have i2: "i < length (req_head s2)" by simp
  have cb2: "callbacks s2 = callbacks s"
    using mask_tx_fields(6) [OF nameserver_failed_mask [OF failed]]
      mask_tx_fields(6) [OF nameserver_pick_mask [OF pick]] by simp
  have down1: "p \<notin> ns_ups (server_head s1)"
    by (rule nameserver_failed_not_up [OF failed dist])
  from nameserver_failed_down [OF failed] obtain n1 where "find_ns p s1 = Some n1"
    by (auto simp: ns_down_def split: option.splits)
  then have ex1: "p \<in> fst ` ns_view (server_head s1)"
    by (rule find_ns_view)
  have keep2: "ns_keep (server_head s1) (server_head s2)"
    by (rule nameserver_pick_keep [OF pick])
  have same: "reply_handle i fl ttl rep s = reply_handle_fail i (reply_error fl) ?s2'"
    if "q = ns (req_head s1 ! i)"
    using that head pick by (simp add: request_reissue_def Let_def)
  show "reply_handle i fl ttl rep s = reply_handle_fail i (reply_error fl) ?s2'"
    if "q = ns (req_head s1 ! i)"
    by (rule same [OF that])
  show "ns_down p s'"
    if "q = ns (req_head s1 ! i)" "reply_handle i fl ttl rep s = Inr s'" for s'
  proof -
    from same [OF that(1)] that(2) have "reply_handle_fail i (reply_error fl) ?s2' = Inr s'"
      by simp
    from reply_handle_fail_keep [OF this err(2,3)]
    have "ns_keep (server_head s2) (server_head s')" by simp
    with keep2 have "ns_keep (server_head s1) (server_head s')" by (rule ns_keep_trans)
    from ns_keep_down [OF this down1 ex1] show ?thesis .
  qed
  show "callbacks s' = callbacks s @
                       [\<lparr>cb_fn = f, cb_result = reply_error fl, cb_type = 0, cb_count = 0,
                         cb_ttl = 0, cb_data = NoData,
                         cb_arg = user_pointer (req_head s ! i)\<rparr>]"
    if "q = ns (req_head s1 ! i)" "reply_handle i fl ttl rep s = Inr s'"
      "search_state (req_head s ! i) = None" "user_callback (req_head s ! i) = user_fn f"
    for s'
  proof -
    from same [OF that(1)] that(2) have run: "reply_handle_fail i (reply_error fl) ?s2' = Inr s'"
      by simp
    have i2': "i < length (req_head ?s2')" using i2 by simp
    have a: "search_state (req_head ?s2' ! i) = None"
      using that(3) i2 r2 drop_ns_search [OF at] by simp
    have b: "user_callback (req_head ?s2' ! i) = user_fn f"
      using that(4) i2 r2 drop_ns_same(2) [OF at] by simp
    have c: "user_pointer (req_head ?s2' ! i) = user_pointer (req_head s ! i)"
      using i2 r2 drop_ns_same(3) [OF at] by simp
    from reply_handle_fail_plain(1) [OF i2' a b run] c cb2 show ?thesis by simp
  qed
  show "\<exists>s'. reply_handle i fl ttl rep s = Inr s' \<and> ns_down p s'
                \<and> callbacks s' = callbacks s
                \<and> map rid (req_head s') = map rid (req_head s)
                \<and> ns (req_head s' ! i) = q \<and> tx_count (req_head s' ! i) = 0
                \<and> transmit_me (req_head s' ! i)
                \<and> reissue_count (req_head s' ! i) = reissue_count (req_head s ! i) + 1"
    if ne: "q \<noteq> ns (req_head s1 ! i)"
  proof -
    let ?s' = "upd_req i (\<lambda>r. r\<lparr>reissue_count := reissue_count r + 1, tx_count := 0,
                                      transmit_me := True\<rparr>) ?s2'"
    have run: "reply_handle i fl ttl rep s = Inr ?s'"
      using ne head pick by (simp add: request_reissue_def Let_def)
    have cb: "callbacks ?s' = callbacks s"
      using cb2 by simp
    have "map rid (req_head ?s') = map rid (req_head ?s2')"
      by (rule upd_req_rids) simp
    also have "\<dots> = map rid (req_head s2)"
      by (rule upd_req_rids) simp
    also have "\<dots> = map rid (req_head s)"
      using r2 nameserver_failed_rids [OF failed] by simp
    finally have rids: "map rid (req_head ?s') = map rid (req_head s)" .
    have "ns_keep (server_head s1) (server_head ?s')"
      using keep2 by simp
    from ns_keep_down [OF this down1 ex1] have down: "ns_down p ?s'" .
    have "ns (req_head ?s' ! i) = q \<and> tx_count (req_head ?s' ! i) = 0
          \<and> transmit_me (req_head ?s' ! i)
          \<and> reissue_count (req_head ?s' ! i) = reissue_count (req_head s ! i) + 1"
      using i2 reqs(2) r2 by simp
    with run cb rids down show ?thesis by blast
  qed
qed

text \<open>
  The amended C7 at three resolvers: one lookup and a second nameserver to move to, two
  lookups and a single nameserver, and the lookup that has been reissued already.
\<close>

theorem server_error_reply_witness:
  "in_final two_servers_lookup
     (\<lambda>s. 0 < length (req_head s) \<and> (0x8182 :: u16) AND 0x0200 = 0
        \<and> (0x8182 :: u16) AND 0x000f \<in> {2, 4, 5}
        \<and> distinct (map ns_ptr (server_head s))
        \<and> reissue_count (req_head s ! 0) < global_max_reissues s
        \<and> ns (req_head s ! 0) = Some 1
        \<and> (\<exists>s1 s2. nameserver_failed 1 s = Inr s1 \<and> nameserver_pick s1 = Inr (Some 2, s2)
              \<and> Some 2 \<noteq> ns (req_head s1 ! 0))
        \<and> (\<exists>s'. reply_handle 0 0x8182 0 None s = Inr s' \<and> ns_down 1 s'
              \<and> callbacks s' = callbacks s
              \<and> ns (req_head s' ! 0) = Some 2 \<and> tx_count (req_head s' ! 0) = 0
              \<and> transmit_me (req_head s' ! 0)
              \<and> reissue_count (req_head s' ! 0) = reissue_count (req_head s ! 0) + 1))
   = Some True
   \<and> in_final two_lookups
     (\<lambda>s. 0 < length (req_head s) \<and> distinct (map ns_ptr (server_head s))
        \<and> reissue_count (req_head s ! 0) < global_max_reissues s
        \<and> ns (req_head s ! 0) = Some 1
        \<and> (\<exists>s1 s2. nameserver_failed 1 s = Inr s1 \<and> nameserver_pick s1 = Inr (Some 1, s2)
              \<and> Some 1 = ns (req_head s1 ! 0))
        \<and> (\<exists>s'. reply_handle 0 0x8182 0 None s = Inr s' \<and> ns_down 1 s'
              \<and> callbacks s' = callbacks s @
                   [\<lparr>cb_fn = 0, cb_result = DNS_ERR_SERVERFAILED, cb_type = 0, cb_count = 0,
                     cb_ttl = 0, cb_data = NoData, cb_arg = 1\<rparr>]))
   = Some True
   \<and> in_final resent_to_second
     (\<lambda>s. 0 < length (req_head s) \<and> distinct (map ns_ptr (server_head s))
        \<and> \<not> reissue_count (req_head s ! 0) < global_max_reissues s
        \<and> global_requests_waiting s = 0
        \<and> (\<exists>s'. reply_handle 0 0x8182 0 None s = Inr s'
              \<and> callbacks s' = callbacks s @
                   [\<lparr>cb_fn = 0, cb_result = DNS_ERR_SERVERFAILED, cb_type = 0, cb_count = 0,
                     cb_ttl = 0, cb_data = NoData, cb_arg = 1\<rparr>]
              \<and> server_head s' = server_head s))
   = Some True"
proof (intro conjI)
  have tc: "(0x8182 :: u16) AND 0x0200 = 0" by simp
  have rc: "(0x8182 :: u16) AND 0x000f \<in> {2, 4, 5}" by simp
  have e: "reply_error 0x8182 = DNS_ERR_SERVERFAILED"
    using reply_error_server [OF tc rc] by simp
  show "in_final two_servers_lookup
     (\<lambda>s. 0 < length (req_head s) \<and> (0x8182 :: u16) AND 0x0200 = 0
        \<and> (0x8182 :: u16) AND 0x000f \<in> {2, 4, 5}
        \<and> distinct (map ns_ptr (server_head s))
        \<and> reissue_count (req_head s ! 0) < global_max_reissues s
        \<and> ns (req_head s ! 0) = Some 1
        \<and> (\<exists>s1 s2. nameserver_failed 1 s = Inr s1 \<and> nameserver_pick s1 = Inr (Some 2, s2)
              \<and> Some 2 \<noteq> ns (req_head s1 ! 0))
        \<and> (\<exists>s'. reply_handle 0 0x8182 0 None s = Inr s' \<and> ns_down 1 s'
              \<and> callbacks s' = callbacks s
              \<and> ns (req_head s' ! 0) = Some 2 \<and> tx_count (req_head s' ! 0) = 0
              \<and> transmit_me (req_head s' ! 0)
              \<and> reissue_count (req_head s' ! 0) = reissue_count (req_head s ! 0) + 1))
     = Some True"
  proof -
    have "in_final two_servers_lookup
       (\<lambda>s. (0 < length (req_head s), distinct (map ns_ptr (server_head s)),
             reissue_count (req_head s ! 0) < global_max_reissues s,
             ns (req_head s ! 0),
             succeeds (bnd (nameserver_failed 1 s) (\<lambda>s1. bnd (nameserver_pick s1) (\<lambda>(q, s2).
                if q = Some 2 \<and> Some 2 \<noteq> ns (req_head s1 ! 0) then Inr s2 else Inl Abort)))))
       = Some (True, True, True, Some 1, True)"
      by code_simp
    then obtain s where s: "two_servers_lookup = Inr s"
      and i: "0 < length (req_head s)"
      and dist: "distinct (map ns_ptr (server_head s))"
      and lt: "reissue_count (req_head s ! 0) < global_max_reissues s"
      and ns: "ns (req_head s ! 0) = Some 1"
      and ok: "succeeds (bnd (nameserver_failed 1 s) (\<lambda>s1. bnd (nameserver_pick s1) (\<lambda>(q, s2).
                if q = Some 2 \<and> Some 2 \<noteq> ns (req_head s1 ! 0) then Inr s2 else Inl Abort)))"
      by (auto simp: in_final_Some)
    from ok obtain s1 s2 where failed: "nameserver_failed 1 s = Inr s1"
      and pick: "nameserver_pick s1 = Inr (Some 2, s2)"
      and ne: "Some 2 \<noteq> ns (req_head s1 ! 0)"
      by (auto elim!: succeedsE simp: bnd_eq_Inr split: if_splits)
    from server_error_reply [OF i tc rc dist, of 1 s1 "Some 2" s2 0 None 0]
      lt ns failed pick ne
    have "\<exists>s'. reply_handle 0 0x8182 0 None s = Inr s' \<and> ns_down 1 s'
                \<and> callbacks s' = callbacks s
                \<and> map rid (req_head s') = map rid (req_head s)
                \<and> ns (req_head s' ! 0) = Some 2 \<and> tx_count (req_head s' ! 0) = 0
                \<and> transmit_me (req_head s' ! 0)
                \<and> reissue_count (req_head s' ! 0) = reissue_count (req_head s ! 0) + 1"
      by blast
    then have "\<exists>s'. reply_handle 0 0x8182 0 None s = Inr s' \<and> ns_down 1 s'
                \<and> callbacks s' = callbacks s
                \<and> ns (req_head s' ! 0) = Some 2 \<and> tx_count (req_head s' ! 0) = 0
                \<and> transmit_me (req_head s' ! 0)
                \<and> reissue_count (req_head s' ! 0) = reissue_count (req_head s ! 0) + 1"
      by blast
    moreover have "\<exists>s1 s2. nameserver_failed 1 s = Inr s1 \<and> nameserver_pick s1 = Inr (Some 2, s2)
                \<and> Some 2 \<noteq> ns (req_head s1 ! 0)"
      using failed pick ne by blast
    ultimately show ?thesis
      using i lt ns tc rc dist by (simp add: in_final_def s)
  qed
  show "in_final two_lookups
     (\<lambda>s. 0 < length (req_head s) \<and> distinct (map ns_ptr (server_head s))
        \<and> reissue_count (req_head s ! 0) < global_max_reissues s
        \<and> ns (req_head s ! 0) = Some 1
        \<and> (\<exists>s1 s2. nameserver_failed 1 s = Inr s1 \<and> nameserver_pick s1 = Inr (Some 1, s2)
              \<and> Some 1 = ns (req_head s1 ! 0))
        \<and> (\<exists>s'. reply_handle 0 0x8182 0 None s = Inr s' \<and> ns_down 1 s'
              \<and> callbacks s' = callbacks s @
                   [\<lparr>cb_fn = 0, cb_result = DNS_ERR_SERVERFAILED, cb_type = 0, cb_count = 0,
                     cb_ttl = 0, cb_data = NoData, cb_arg = 1\<rparr>]))
     = Some True"
  proof -
    have "in_final two_lookups
       (\<lambda>s. (0 < length (req_head s), distinct (map ns_ptr (server_head s)),
             reissue_count (req_head s ! 0) < global_max_reissues s,
             ns (req_head s ! 0),
             search_state (req_head s ! 0), user_callback (req_head s ! 0),
             user_pointer (req_head s ! 0),
             succeeds (bnd (nameserver_failed 1 s) (\<lambda>s1. bnd (nameserver_pick s1) (\<lambda>(q, s2).
                if q = Some 1 \<and> Some 1 = ns (req_head s1 ! 0) then Inr s2 else Inl Abort))),
             succeeds (reply_handle 0 0x8182 0 None s)))
       = Some (True, True, True, Some 1, None, user_fn 0, 1, True, True)"
      by code_simp
    then obtain s where s: "two_lookups = Inr s"
      and i: "0 < length (req_head s)"
      and dist: "distinct (map ns_ptr (server_head s))"
      and lt: "reissue_count (req_head s ! 0) < global_max_reissues s"
      and ns: "ns (req_head s ! 0) = Some 1"
      and nos: "search_state (req_head s ! 0) = None"
      and cbf: "user_callback (req_head s ! 0) = user_fn 0"
      and arg: "user_pointer (req_head s ! 0) = 1"
      and ok: "succeeds (bnd (nameserver_failed 1 s) (\<lambda>s1. bnd (nameserver_pick s1) (\<lambda>(q, s2).
                if q = Some 1 \<and> Some 1 = ns (req_head s1 ! 0) then Inr s2 else Inl Abort)))"
      and ok2: "succeeds (reply_handle 0 0x8182 0 None s)"
      by (auto simp: in_final_Some)
    from ok obtain s1 s2 where failed: "nameserver_failed 1 s = Inr s1"
      and pick: "nameserver_pick s1 = Inr (Some 1, s2)"
      and same: "Some 1 = ns (req_head s1 ! 0)"
      by (auto elim!: succeedsE simp: bnd_eq_Inr split: if_splits)
    from ok2 obtain s' where run: "reply_handle 0 0x8182 0 None s = Inr s'"
      by (rule succeedsE)
    from server_error_reply [OF i tc rc dist, of 1 s1 "Some 1" s2 0 None 0]
      lt ns failed pick same run nos cbf
    have "ns_down 1 s'"
      and "callbacks s' = callbacks s @
                   [\<lparr>cb_fn = 0, cb_result = reply_error 0x8182, cb_type = 0, cb_count = 0,
                     cb_ttl = 0, cb_data = NoData, cb_arg = user_pointer (req_head s ! 0)\<rparr>]"
      by blast+
    with run e arg have "\<exists>s'. reply_handle 0 0x8182 0 None s = Inr s' \<and> ns_down 1 s'
              \<and> callbacks s' = callbacks s @
                   [\<lparr>cb_fn = 0, cb_result = DNS_ERR_SERVERFAILED, cb_type = 0, cb_count = 0,
                     cb_ttl = 0, cb_data = NoData, cb_arg = 1\<rparr>]"
      by simp
    moreover have "\<exists>s1 s2. nameserver_failed 1 s = Inr s1 \<and> nameserver_pick s1 = Inr (Some 1, s2)
                \<and> Some 1 = ns (req_head s1 ! 0)"
      using failed pick same by blast
    ultimately show ?thesis
      using i lt ns dist by (simp add: in_final_def s)
  qed
  show "in_final resent_to_second
     (\<lambda>s. 0 < length (req_head s) \<and> distinct (map ns_ptr (server_head s))
        \<and> \<not> reissue_count (req_head s ! 0) < global_max_reissues s
        \<and> global_requests_waiting s = 0
        \<and> (\<exists>s'. reply_handle 0 0x8182 0 None s = Inr s'
              \<and> callbacks s' = callbacks s @
                   [\<lparr>cb_fn = 0, cb_result = DNS_ERR_SERVERFAILED, cb_type = 0, cb_count = 0,
                     cb_ttl = 0, cb_data = NoData, cb_arg = 1\<rparr>]
              \<and> server_head s' = server_head s))
     = Some True"
  proof -
    have "in_final resent_to_second
       (\<lambda>s. (0 < length (req_head s), distinct (map ns_ptr (server_head s)),
             reissue_count (req_head s ! 0) < global_max_reissues s,
             search_state (req_head s ! 0), user_callback (req_head s ! 0),
             user_pointer (req_head s ! 0), global_requests_waiting s,
             succeeds (reply_handle 0 0x8182 0 None s)))
       = Some (True, True, False, None, user_fn 0, 1, 0, True)"
      by code_simp
    then obtain s where s: "resent_to_second = Inr s"
      and i: "0 < length (req_head s)"
      and dist: "distinct (map ns_ptr (server_head s))"
      and nlt: "\<not> reissue_count (req_head s ! 0) < global_max_reissues s"
      and nos: "search_state (req_head s ! 0) = None"
      and cbf: "user_callback (req_head s ! 0) = user_fn 0"
      and arg: "user_pointer (req_head s ! 0) = 1"
      and w: "global_requests_waiting s = 0"
      and ok2: "succeeds (reply_handle 0 0x8182 0 None s)"
      by (auto simp: in_final_Some)
    from ok2 obtain s' where run: "reply_handle 0 0x8182 0 None s = Inr s'"
      by (rule succeedsE)
    from server_error_reply [OF i tc rc dist, of 1 s None s 0 None 0]
      nlt run nos cbf w
    have "callbacks s' = callbacks s @
                   [\<lparr>cb_fn = 0, cb_result = reply_error 0x8182, cb_type = 0, cb_count = 0,
                     cb_ttl = 0, cb_data = NoData, cb_arg = user_pointer (req_head s ! 0)\<rparr>]"
      and "server_head s' = server_head s"
      by blast+
    with run e arg i dist nlt w show ?thesis
      by (simp add: in_final_def s)
  qed
qed



end
